theory Spec2Isabelle
  imports Complex_Main "HOL-Library.Sublist" "HOL-Library.AList"
begin

section \<open>Errors and outcomes\<close>

text \<open>
  The exceptions that the helpers of \<^verbatim>\<open>_zero3_utils.py\<close> can raise, directly
  (\<^verbatim>\<open>assert\<close>, \<^verbatim>\<open>raise ValueError\<close>) or through the operations they call
  (list indexing, dictionary lookup, the library's check of the number of chunks).
\<close>

datatype error = AssertionError | ValueError | IndexError | KeyError | RuntimeError

text \<open>
  A helper that mutates its argument in place is a function from the state before the
  call to an outcome: the state at the normal return, or the exception together with
  the state at the moment it was raised.
\<close>

datatype 's outcome = Returned 's | Raised error 's

section \<open>Storage lifecycle\<close>

text \<open>
  What \<^verbatim>\<open>free_storage\<close> and \<^verbatim>\<open>alloc_storage\<close> read and write of a tensor:
  the number of elements of its backing buffer (\<^verbatim>\<open>data.storage().size()\<close>) and the
  offset of the tensor in that buffer (\<^verbatim>\<open>data.storage_offset()\<close>). The offset is
  all the code looks at to decide whether the tensor is alone in its buffer.
\<close>

record storage_view =
  storage_size :: nat
  storage_offset :: nat

text \<open>\<^verbatim>\<open>data.storage().resize_(n)\<close>\<close>

definition storage_resize :: "nat \<Rightarrow> storage_view \<Rightarrow> storage_view" where
  "storage_resize n data = data\<lparr>storage_size := n\<rparr>"

text \<open>
  \<^verbatim>\<open>
  def free_storage(data):
      if data.storage().size() > 0:
          assert data.storage_offset() == 0
          data.storage().resize_(0)
  \<close>
\<close>

definition free_storage :: "storage_view \<Rightarrow> storage_view outcome" where
  "free_storage data =
     (if storage_size data > 0 then
        (if \<not> storage_offset data = 0 then Raised AssertionError data
         else Returned (storage_resize 0 data))
      else Returned data)"

text \<open>A \<^verbatim>\<open>torch.Size\<close> is the list of the dimensions; its \<^verbatim>\<open>numel()\<close> is their product.\<close>

definition size_numel :: "nat list \<Rightarrow> nat" where
  "size_numel sz = prod_list sz"

text \<open>
  \<^verbatim>\<open>
  def alloc_storage(data, size):
      if data.storage().size() == size.numel():
          return
      assert data.storage().size() == 0
      data.storage().resize_(size.numel())
  \<close>
\<close>

definition alloc_storage :: "storage_view \<Rightarrow> nat list \<Rightarrow> storage_view outcome" where
  "alloc_storage data sz =
     (if storage_size data = size_numel sz then Returned data
      else if \<not> storage_size data = 0 then Raised AssertionError data
      else Returned (storage_resize (size_numel sz) data))"

text \<open>
  \<^verbatim>\<open>data.storage()\<close> is the storage object itself, which several tensors may share:
  a view such as \<^verbatim>\<open>base[:4]\<close> sits on the storage of \<^verbatim>\<open>base\<close>, at offset 0.
  Resizing the storage is therefore seen by every tensor on it. The storages are
  numbered, the state is the list of their element counts, and a tensor names its
  storage, its offset in it and its own element count. \<^verbatim>\<open>free_storage\<close> on such a
  tensor is \<open>free_storage\<close> on what the tensor sees of its storage, written back to
  the shared state.
\<close>

record tensor_on_storage =
  storage_index :: nat
  view_offset :: nat
  view_numel :: nat

definition storage_view_of :: "nat list \<Rightarrow> tensor_on_storage \<Rightarrow> storage_view" where
  "storage_view_of storages t =
     \<lparr>storage_size = storages ! storage_index t, storage_offset = view_offset t\<rparr>"

definition free_storage_shared :: "nat list \<Rightarrow> tensor_on_storage \<Rightarrow> nat list outcome" where
  "free_storage_shared storages t =
     (case free_storage (storage_view_of storages t) of
        Returned data \<Rightarrow> Returned (storages[storage_index t := storage_size data])
      | Raised e data \<Rightarrow> Raised e (storages[storage_index t := storage_size data]))"

section \<open>Gradient predivide factor\<close>

text \<open>
  \<^verbatim>\<open>
  def get_gradient_predivide_factor(world_size: int) -> float:
      factor: int = 1
      while world_size % factor == 0 and world_size / factor > factor:
          factor *= 2
      return float(factor)
  \<close>
  The loop is the recursive function \<open>predivide_loop\<close>, its state the variable
  \<^verbatim>\<open>factor\<close>. The variable starts at 1 and is only ever doubled, so it is a natural
  number; \<^verbatim>\<open>world_size\<close> is any integer. \<^verbatim>\<open>%\<close> with a positive divisor
  is \<open>mod\<close>, and \<^verbatim>\<open>/\<close> is the true division, written here over the reals: the
  quotient is computed only after \<^verbatim>\<open>world_size % factor == 0\<close> has held, so it is a
  whole number, which a binary64 float holds exactly as long as \<^verbatim>\<open>world_size\<close>
  is below \<open>2 ^ 53\<close>. The result \<^verbatim>\<open>float(factor)\<close> is a power of two and is
  represented by its value.
\<close>

function predivide_loop :: "int \<Rightarrow> nat \<Rightarrow> nat" where
  "predivide_loop world_size factor =
     (if world_size mod int factor = 0 \<and> real_of_int world_size / real factor > real factor
      then predivide_loop world_size (factor * 2)
      else factor)"
  by pat_completeness auto
termination
proof (relation "measure (\<lambda>(world_size, factor). nat world_size - factor)")
  show "wf (measure (\<lambda>(world_size, factor). nat world_size - factor))"
    by simp
next
  fix world_size :: int and factor :: nat
  assume c: "world_size mod int factor = 0 \<and> real factor < real_of_int world_size / real factor"
  have pos: "0 < factor"
  proof (rule ccontr)
    assume "\<not> 0 < factor"
    with c show False by simp
  qed
  from c pos have "real factor * real factor < real_of_int world_size"
    by (simp add: pos_less_divide_eq)
  then have "int factor * int factor < world_size"
    by (metis of_int_less_iff of_int_mult of_int_of_nat_eq)
  moreover from pos have "int factor \<le> int factor * int factor"
    by simp
  ultimately have "int factor < world_size"
    by linarith
  with pos show "((world_size, factor * 2), (world_size, factor))
      \<in> measure (\<lambda>(world_size, factor). nat world_size - factor)"
    by simp
qed

declare predivide_loop.simps [simp del]

definition get_gradient_predivide_factor :: "int \<Rightarrow> nat" where
  "get_gradient_predivide_factor world_size = predivide_loop world_size 1"

section \<open>Sharding\<close>

text \<open>
  A flattened tensor (\<^verbatim>\<open>torch.flatten(tensor)\<close>) is the list of its elements in
  row-major order; \<^verbatim>\<open>numel()\<close> is the length of the list. The element type is any
  type with a zero, the value that padding writes.

  Python list indexing: a negative index counts from the end, an index out of range
  raises \<^verbatim>\<open>IndexError\<close>.
\<close>

definition list_getitem :: "'a list \<Rightarrow> int \<Rightarrow> error + 'a" where
  "list_getitem xs i =
     (if 0 \<le> i \<and> i < int (length xs) then Inr (xs ! nat i)
      else if i < 0 \<and> - int (length xs) \<le> i then Inr (xs ! nat (int (length xs) + i))
      else Inl IndexError)"

text \<open>
  Modelled from the spec: the chunking of the tensor library (\<^verbatim>\<open>Tensor.chunk\<close> on a
  one-dimensional tensor), which is not code of this repository. The spec gives its
  semantics as contiguous chunks of near-equal sizes, the last one possibly smaller, and
  possibly fewer chunks than asked for. The model is the library's rule with these
  properties: the chunk size is the element count divided by the number of chunks,
  rounded up, and the tensor is cut into consecutive pieces of that size, the last one
  holding what is left (\<open>torch_split\<close>); a number of chunks that is not positive is
  an error, and an empty tensor gives the asked number of empty chunks.
\<close>

definition torch_split :: "'a list \<Rightarrow> nat \<Rightarrow> 'a list list" where
  "torch_split xs split_size =
     (let dim_size = length xs;
          num_splits = max ((dim_size + split_size - 1) div split_size) 1
      in map (\<lambda>i. take split_size (drop (i * split_size) xs)) [0..<num_splits])"

definition torch_chunk :: "'a list \<Rightarrow> int \<Rightarrow> error + 'a list list" where
  "torch_chunk xs chunks =
     (if chunks \<le> 0 then Inl RuntimeError
      else let dim_size = length xs;
               split_size = (dim_size + nat chunks - 1) div nat chunks
           in if split_size = 0 \<and> dim_size = 0 then Inr (replicate (nat chunks) [])
              else Inr (torch_split xs split_size))"

text \<open>
  \<^verbatim>\<open>
  def get_shard(tensor, rank, world_size):
      chunks = list(torch.flatten(tensor).chunk(world_size))
      while len(chunks) < world_size:
          chunks.append(chunks[0].new_empty(0))
      num_to_pad = chunks[0].numel() - chunks[rank].numel()
      assert num_to_pad >= 0, num_to_pad
      shard = chunks[rank].clone()
      if num_to_pad > 0:
          shard = F.pad(shard, [0, num_to_pad])
      return shard, num_to_pad
  \<close>
  The \<^verbatim>\<open>while\<close> loop is \<open>append_empty_chunks\<close>, where \<^verbatim>\<open>chunks[0].new_empty(0)\<close>
  is the empty tensor; \<^verbatim>\<open>F.pad(t, [0, n])\<close> appends \<open>n\<close> zeros to \<open>t\<close>, and
  \<^verbatim>\<open>clone()\<close> copies, which a value needs not. The pad count is an integer, so that
  the assertion on its sign is a test the model makes.
\<close>

function append_empty_chunks :: "'a list list \<Rightarrow> int \<Rightarrow> error + 'a list list" where
  "append_empty_chunks chunks world_size =
     (if int (length chunks) < world_size then
        (case list_getitem chunks 0 of
           Inl e \<Rightarrow> Inl e
         | Inr c0 \<Rightarrow> append_empty_chunks (chunks @ [[]]) world_size)
      else Inr chunks)"
  by pat_completeness auto
termination
  by (relation "measure (\<lambda>(chunks, world_size). nat (world_size - int (length chunks)))") auto

declare append_empty_chunks.simps [simp del]

definition F_pad :: "'a::zero list \<Rightarrow> nat \<Rightarrow> 'a list" where
  "F_pad t n = t @ replicate n 0"

definition get_shard :: "'a::zero list \<Rightarrow> int \<Rightarrow> int \<Rightarrow> error + ('a list \<times> int)" where
  "get_shard tensor rank world_size =
     (case torch_chunk tensor world_size of
        Inl e \<Rightarrow> Inl e
      | Inr cs \<Rightarrow>
     (case append_empty_chunks cs world_size of
        Inl e \<Rightarrow> Inl e
      | Inr chunks \<Rightarrow>
     (case list_getitem chunks 0 of
        Inl e \<Rightarrow> Inl e
      | Inr c0 \<Rightarrow>
     (case list_getitem chunks rank of
        Inl e \<Rightarrow> Inl e
      | Inr shard \<Rightarrow>
          let num_to_pad = int (length c0) - int (length shard)
          in if \<not> num_to_pad \<ge> 0 then Inl AssertionError
             else if num_to_pad > 0 then Inr (F_pad shard (nat num_to_pad), num_to_pad)
             else Inr (shard, num_to_pad)))))"

text \<open>
  \<^verbatim>\<open>
  def chunk_and_pad(tensor, num_chunks):
      chunks = list(torch.flatten(tensor).chunk(num_chunks))
      num_pad_for_partial_chunk = chunks[0].numel() - chunks[-1].numel()
      if num_pad_for_partial_chunk > 0:
          chunks[-1] = F.pad(chunks[-1], [0, num_pad_for_partial_chunk])
      if len(chunks) < num_chunks:
          chunks.extend([torch.zeros_like(chunks[0]) for _ in range(num_chunks - len(chunks))])
      return chunks
  \<close>
  \<^verbatim>\<open>torch.zeros_like(t)\<close> is a tensor of zeros with the element count of \<open>t\<close>; the
  assignment to \<^verbatim>\<open>chunks[-1]\<close> replaces the last element of the list.
\<close>

definition zeros_like :: "'a::zero list \<Rightarrow> 'a list" where
  "zeros_like t = replicate (length t) 0"

definition chunk_and_pad :: "'a::zero list \<Rightarrow> int \<Rightarrow> error + 'a list list" where
  "chunk_and_pad tensor num_chunks =
     (case torch_chunk tensor num_chunks of
        Inl e \<Rightarrow> Inl e
      | Inr chunks \<Rightarrow>
     (case list_getitem chunks 0 of
        Inl e \<Rightarrow> Inl e
      | Inr c0 \<Rightarrow>
     (case list_getitem chunks (- 1) of
        Inl e \<Rightarrow> Inl e
      | Inr clast \<Rightarrow>
          let num_pad_for_partial_chunk = int (length c0) - int (length clast);
              chunks1 = (if num_pad_for_partial_chunk > 0
                         then chunks[length chunks - 1 := F_pad clast (nat num_pad_for_partial_chunk)]
                         else chunks)
          in if int (length chunks1) < num_chunks then
               (case list_getitem chunks1 0 of
                  Inl e \<Rightarrow> Inl e
                | Inr c0' \<Rightarrow>
                    Inr (chunks1 @ replicate (nat (num_chunks - int (length chunks1))) (zeros_like c0')))
             else Inr chunks1)))"

text \<open>
  Names for the quantities the properties below speak about: the chunk size that the
  library computes, the chunk list it returns for a positive number of chunks, that list
  filled up with empty chunks as \<^verbatim>\<open>get_shard\<close> does, and the two components of what
  \<^verbatim>\<open>get_shard\<close> returns.
\<close>

definition chunk_numel :: "'a list \<Rightarrow> int \<Rightarrow> nat" where
  "chunk_numel xs chunks = (length xs + nat chunks - 1) div nat chunks"

definition chunks_of :: "'a list \<Rightarrow> int \<Rightarrow> 'a list list" where
  "chunks_of xs chunks =
     (if length xs = 0 then replicate (nat chunks) [] else torch_split xs (chunk_numel xs chunks))"

definition filled_chunks :: "'a list \<Rightarrow> int \<Rightarrow> 'a list list" where
  "filled_chunks xs chunks =
     chunks_of xs chunks @ replicate (nat chunks - length (chunks_of xs chunks)) []"

definition shard_numel :: "error + 'a list \<times> int \<Rightarrow> int" where
  "shard_numel res = (case res of Inl e \<Rightarrow> 0 | Inr (shard, num_to_pad) \<Rightarrow> int (length shard))"

definition shard_padding :: "error + 'a list \<times> int \<Rightarrow> int" where
  "shard_padding res = (case res of Inl e \<Rightarrow> 0 | Inr (shard, num_to_pad) \<Rightarrow> num_to_pad)"

section \<open>Precision casting\<close>

text \<open>
  What the two casting helpers read and write of a tensor: its \<^verbatim>\<open>dtype\<close>, whether it
  is a leaf of the autograd graph, and whether it requires gradients. The element values
  are not part of the model.
\<close>

datatype dtype = float16 | float32 | float64 | bfloat16 | int64

record tensor =
  dtype :: dtype
  is_leaf :: bool
  requires_grad :: bool

text \<open>
  The assignment \<^verbatim>\<open>out.requires_grad = flag\<close> is the library's, not code of this
  repository: it raises a runtime error on a tensor that is not a leaf, and sets the
  flag of a leaf.
\<close>

definition set_requires_grad :: "tensor \<Rightarrow> bool \<Rightarrow> error + tensor" where
  "set_requires_grad out flag =
     (if \<not> is_leaf out then Inl RuntimeError else Inr (out\<lparr>requires_grad := flag\<rparr>))"

text \<open>
  \<^verbatim>\<open>
  def cast_trensor_to_fp16(tensor):
      if tensor.dtype is torch.float32:
          out = tensor.half()
          if tensor.is_leaf:
              out.requires_grad = tensor.requires_grad
          return out
      return tensor
  \<close>
  and the same for \<^verbatim>\<open>cast_trensor_to_fp32\<close> with \<^verbatim>\<open>torch.float16\<close> and
  \<^verbatim>\<open>tensor.float()\<close>. The library conversions \<^verbatim>\<open>half()\<close> and \<^verbatim>\<open>float()\<close> are
  parameters, so that the autograd flags of the tensor they return are whatever the
  library makes them.
\<close>

definition cast_trensor_to_fp16 :: "(tensor \<Rightarrow> tensor) \<Rightarrow> tensor \<Rightarrow> error + tensor" where
  "cast_trensor_to_fp16 half t =
     (if dtype t = float32 then
        (let out = half t
         in if is_leaf t then set_requires_grad out (requires_grad t) else Inr out)
      else Inr t)"

definition cast_trensor_to_fp32 :: "(tensor \<Rightarrow> tensor) \<Rightarrow> tensor \<Rightarrow> error + tensor" where
  "cast_trensor_to_fp32 float t =
     (if dtype t = float16 then
        (let out = float t
         in if is_leaf t then set_requires_grad out (requires_grad t) else Inr out)
      else Inr t)"

text \<open>
  \<^verbatim>\<open>cast_tensor_to_fp16(cast_tensor_to_fp32(cast_tensor_to_fp16(T)))\<close>, where an
  exception of an inner call ends the whole expression.
\<close>

definition fp16_fp32_fp16 :: "(tensor \<Rightarrow> tensor) \<Rightarrow> (tensor \<Rightarrow> tensor) \<Rightarrow> tensor \<Rightarrow> error + tensor" where
  "fp16_fp32_fp16 half float t =
     (case cast_trensor_to_fp16 half t of
        Inl e \<Rightarrow> Inl e
      | Inr a \<Rightarrow>
          (case cast_trensor_to_fp32 float a of
             Inl e \<Rightarrow> Inl e
           | Inr b \<Rightarrow> cast_trensor_to_fp16 half b))"

text \<open>
  What the properties ask of a conversion: the \<^verbatim>\<open>dtype\<close> of what it returns, and
  that it returns a leaf for a leaf.
\<close>

definition casts_to :: "dtype \<Rightarrow> (tensor \<Rightarrow> tensor) \<Rightarrow> bool" where
  "casts_to d conv = (\<forall>t. dtype (conv t) = d)"

definition keeps_leaf :: "(tensor \<Rightarrow> tensor) \<Rightarrow> bool" where
  "keeps_leaf conv = (\<forall>t. is_leaf t \<longrightarrow> is_leaf (conv t))"

text \<open>
  Two conversions. With gradient recording off the library returns a leaf that requires
  no gradient. With gradient recording on, which is the default, the result of an
  operation on a tensor that requires gradients requires them too and is not a leaf,
  and the result on any other tensor is a leaf that requires none.
\<close>

definition no_grad_cast :: "dtype \<Rightarrow> tensor \<Rightarrow> tensor" where
  "no_grad_cast d t = \<lparr>dtype = d, is_leaf = True, requires_grad = False\<rparr>"

definition grad_mode_cast :: "dtype \<Rightarrow> tensor \<Rightarrow> tensor" where
  "grad_mode_cast d t = \<lparr>dtype = d, is_leaf = \<not> requires_grad t, requires_grad = requires_grad t\<rparr>"

text \<open>The tensor \<open>out\<close> after the flag of a leaf input \<open>t\<close> has been assigned to it.\<close>

definition propagated :: "tensor \<Rightarrow> tensor \<Rightarrow> tensor" where
  "propagated t out = (if is_leaf t then out\<lparr>requires_grad := requires_grad t\<rparr> else out)"

section \<open>Structural traversal\<close>

text \<open>
  The values \<^verbatim>\<open>apply_to_tensors\<close> tells apart: a tensor, a list, a tuple, a
  dictionary (its items in order, with distinct keys), and anything else.
  \<^verbatim>\<open>
  def apply_to_tensors(x, fn):
      if torch.is_tensor(x):
          return fn(x)
      elif isinstance(x, list):
          return [apply_to_tensors(t, fn) for t in x]
      elif isinstance(x, tuple):
          return tuple(apply_to_tensors(t, fn) for t in x)
      elif isinstance(x, dict):
          return {key: apply_to_tensors(val, fn) for key, val in x.items()}
      else:
          return x
  \<close>
  \<^verbatim>\<open>fn\<close> may return any value; the identity function is the constructor
  \<open>Tensor\<close>.
\<close>

datatype ('t, 'k, 'o) pyval =
    Tensor 't
  | PyList "('t, 'k, 'o) pyval list"
  | PyTuple "('t, 'k, 'o) pyval list"
  | PyDict "('k \<times> ('t, 'k, 'o) pyval) list"
  | Other 'o

fun apply_to_tensors :: "('t, 'k, 'o) pyval \<Rightarrow> ('t \<Rightarrow> ('t, 'k, 'o) pyval) \<Rightarrow> ('t, 'k, 'o) pyval" where
  "apply_to_tensors (Tensor x) fn = fn x"
| "apply_to_tensors (PyList x) fn = PyList (map (\<lambda>t. apply_to_tensors t fn) x)"
| "apply_to_tensors (PyTuple x) fn = PyTuple (map (\<lambda>t. apply_to_tensors t fn) x)"
| "apply_to_tensors (PyDict x) fn = PyDict (map (\<lambda>(key, val). (key, apply_to_tensors val fn)) x)"
| "apply_to_tensors (Other x) fn = Other x"

section \<open>Renaming a prefix of the keys of a state dict\<close>

text \<open>
  A state dict is a Python \<^verbatim>\<open>dict\<close> from string keys to tensors: the list of its
  items in insertion order, with distinct keys. A string is the list of its characters.
  Looking a key up is \<open>map_of\<close>; assigning to a key is \<open>AList.update\<close>, which
  replaces the value of a key that is present, at its place, and appends a new key at
  the end; \<^verbatim>\<open>del\<close> is \<open>AList.delete\<close>. A key that is looked up or deleted and is
  not there raises \<^verbatim>\<open>KeyError\<close>.
  \<^verbatim>\<open>
  def replace_state_dict_prefix(state_dict, old_prefix, new_prefix):
      if old_prefix == new_prefix:
          raise ValueError("old_prefix and new_prefix must be distinct")
      for key in list(state_dict.keys()):
          if not key.startswith(old_prefix):
              continue
          new_key = new_prefix + key[len(old_prefix):]
          state_dict[new_key] = state_dict[key]
          del state_dict[key]
  \<close>
  The loop runs over a snapshot of the keys, and is \<open>rename_keys\<close>.
\<close>

type_synonym ('c, 'v) state_dict = "('c list \<times> 'v) list"

definition dict_keys :: "('c, 'v) state_dict \<Rightarrow> 'c list list" where
  "dict_keys d = map fst d"

definition new_key_of :: "'c list \<Rightarrow> 'c list \<Rightarrow> 'c list \<Rightarrow> 'c list" where
  "new_key_of old_prefix new_prefix key = new_prefix @ drop (length old_prefix) key"

fun rename_keys ::
  "'c list list \<Rightarrow> 'c list \<Rightarrow> 'c list \<Rightarrow> ('c, 'v) state_dict \<Rightarrow> ('c, 'v) state_dict outcome" where
  "rename_keys [] old_prefix new_prefix state_dict = Returned state_dict"
| "rename_keys (key # keys) old_prefix new_prefix state_dict =
     (if \<not> prefix old_prefix key then rename_keys keys old_prefix new_prefix state_dict
      else
        (case map_of state_dict key of
           None \<Rightarrow> Raised KeyError state_dict
         | Some v \<Rightarrow>
             (let state_dict1 = AList.update (new_key_of old_prefix new_prefix key) v state_dict
              in if map_of state_dict1 key = None then Raised KeyError state_dict1
                 else rename_keys keys old_prefix new_prefix (AList.delete key state_dict1))))"

definition replace_state_dict_prefix ::
  "('c, 'v) state_dict \<Rightarrow> 'c list \<Rightarrow> 'c list \<Rightarrow> ('c, 'v) state_dict outcome" where
  "replace_state_dict_prefix state_dict old_prefix new_prefix =
     (if old_prefix = new_prefix then Raised ValueError state_dict
      else rename_keys (dict_keys state_dict) old_prefix new_prefix state_dict)"

text \<open>
  For the properties: the key from which a key with the new prefix would have been
  renamed, and the mapping that results from a mapping \<open>m\<close> when the keys in \<open>ks\<close>
  with the old prefix are renamed.
\<close>

definition old_key_of :: "'c list \<Rightarrow> 'c list \<Rightarrow> 'c list \<Rightarrow> 'c list" where
  "old_key_of old_prefix new_prefix key = old_prefix @ drop (length new_prefix) key"

definition renamed ::
  "('c list \<rightharpoonup> 'v) \<Rightarrow> 'c list set \<Rightarrow> 'c list \<Rightarrow> 'c list \<Rightarrow> ('c list \<rightharpoonup> 'v)" where
  "renamed m ks old_prefix new_prefix =
     (\<lambda>x. if prefix new_prefix x \<and> old_key_of old_prefix new_prefix x \<in> ks
          then m (old_key_of old_prefix new_prefix x)
          else if prefix old_prefix x \<and> x \<in> ks then None
          else m x)"

section \<open>Properties of the storage lifecycle\<close>

text \<open>
  C8. \<^verbatim>\<open>alloc_storage(tensor, size)\<close> changes nothing when the buffer already holds
  \<^verbatim>\<open>size.numel()\<close> elements; otherwise it raises an assertion error, leaving the
  buffer as it is, when the buffer is not empty, and resizes an empty buffer to exactly
  \<^verbatim>\<open>size.numel()\<close> elements.
\<close>

theorem alloc_storage_cases:
  "(storage_size data = size_numel sz \<longrightarrow> alloc_storage data sz = Returned data) \<and>
   (storage_size data \<noteq> size_numel sz \<and> storage_size data \<noteq> 0 \<longrightarrow>
      alloc_storage data sz = Raised AssertionError data) \<and>
   (storage_size data \<noteq> size_numel sz \<and> storage_size data = 0 \<longrightarrow>
      (\<exists>data'. alloc_storage data sz = Returned data' \<and>
         storage_size data' = size_numel sz \<and> storage_offset data' = storage_offset data))"
  by (simp add: alloc_storage_def storage_resize_def)

theorem alloc_storage_cases_witness:
  "alloc_storage \<lparr>storage_size = 6, storage_offset = 0\<rparr> [2, 3]
     = Returned \<lparr>storage_size = 6, storage_offset = 0\<rparr> \<and>
   alloc_storage \<lparr>storage_size = 4, storage_offset = 0\<rparr> [2, 3]
     = Raised AssertionError \<lparr>storage_size = 4, storage_offset = 0\<rparr> \<and>
   (\<exists>data'. alloc_storage \<lparr>storage_size = 0, storage_offset = 0\<rparr> [2, 3] = Returned data' \<and>
      storage_size data' = 6 \<and> storage_offset data' = 0)"
  using alloc_storage_cases [of "\<lparr>storage_size = 6, storage_offset = 0\<rparr>" "[2, 3]"]
    alloc_storage_cases [of "\<lparr>storage_size = 4, storage_offset = 0\<rparr>" "[2, 3]"]
    alloc_storage_cases [of "\<lparr>storage_size = 0, storage_offset = 0\<rparr>" "[2, 3]"]
  by (simp add: size_numel_def)

text \<open>
  What \<^verbatim>\<open>free_storage\<close> does, by the size of the buffer and the offset of the
  tensor: a non-empty buffer is resized to zero when the tensor is at offset zero, and
  is left as it is, with an assertion error, when it is not; an empty buffer is left as
  it is, with no error, whatever the offset.
\<close>

lemma free_storage_cases:
  "(storage_size data > 0 \<and> storage_offset data = 0 \<longrightarrow>
      free_storage data = Returned (data\<lparr>storage_size := 0\<rparr>)) \<and>
   (storage_size data > 0 \<and> storage_offset data \<noteq> 0 \<longrightarrow>
      free_storage data = Raised AssertionError data) \<and>
   (storage_size data = 0 \<longrightarrow> free_storage data = Returned data)"
  by (simp add: free_storage_def storage_resize_def)

lemma free_storage_examples:
  "free_storage \<lparr>storage_size = 8, storage_offset = 0\<rparr>
     = Returned \<lparr>storage_size = 0, storage_offset = 0\<rparr> \<and>
   free_storage \<lparr>storage_size = 8, storage_offset = 2\<rparr>
     = Raised AssertionError \<lparr>storage_size = 8, storage_offset = 2\<rparr> \<and>
   free_storage \<lparr>storage_size = 0, storage_offset = 2\<rparr>
     = Returned \<lparr>storage_size = 0, storage_offset = 2\<rparr>"
  using free_storage_cases [of "\<lparr>storage_size = 8, storage_offset = 0\<rparr>"]
    free_storage_cases [of "\<lparr>storage_size = 8, storage_offset = 2\<rparr>"]
    free_storage_cases [of "\<lparr>storage_size = 0, storage_offset = 2\<rparr>"]
  by simp

text \<open>
  C9. The claim is that \<^verbatim>\<open>free_storage(tensor)\<close> fails with an assertion error when
  the tensor does not exclusively own its buffer at offset zero, and the comment in the
  code says that the assertion makes sure the tensor is the sole occupant of the
  storage. The code does not do that: the assertion only tests the offset. A tensor
  \<^verbatim>\<open>base\<close> of 8 elements and its view \<^verbatim>\<open>base[:4]\<close> are on the same storage, both at
  offset 0; \<^verbatim>\<open>free_storage(base[:4])\<close> returns with no error and has resized the
  shared storage to zero, so that \<^verbatim>\<open>base\<close>, which saw 8 elements before the call,
  sees none after it.
\<close>

theorem free_storage_shared_view_released:
  "storage_index \<lparr>storage_index = 0, view_offset = 0, view_numel = 4\<rparr>
     = storage_index \<lparr>storage_index = 0, view_offset = 0, view_numel = 8\<rparr> \<and>
   free_storage_shared [8] \<lparr>storage_index = 0, view_offset = 0, view_numel = 4\<rparr> = Returned [0] \<and>
   storage_view_of [8] \<lparr>storage_index = 0, view_offset = 0, view_numel = 8\<rparr>
     = \<lparr>storage_size = 8, storage_offset = 0\<rparr> \<and>
   storage_view_of [0] \<lparr>storage_index = 0, view_offset = 0, view_numel = 8\<rparr>
     = \<lparr>storage_size = 0, storage_offset = 0\<rparr>"
  by (simp add: free_storage_shared_def storage_view_of_def free_storage_def storage_resize_def)

section \<open>Properties of the gradient predivide factor\<close>

lemma predivide_cond_iff:
  "0 < factor \<Longrightarrow>
     (real factor < real_of_int world_size / real factor) = (int factor * int factor < world_size)"
proof -
  assume pos: "0 < factor"
  then have "(real factor < real_of_int world_size / real factor)
      = (real factor * real factor < real_of_int world_size)"
    by (simp add: pos_less_divide_eq)
  also have "\<dots> = (real_of_int (int factor * int factor) < real_of_int world_size)"
    by simp
  also have "\<dots> = (int factor * int factor < world_size)"
    by (simp only: of_int_less_iff)
  finally show ?thesis .
qed

lemma predivide_loop_spec:
  "factor = 2 ^ i \<Longrightarrow>
   (\<forall>j<i. int (2 ^ j) dvd world_size \<and> int (2 ^ j) * int (2 ^ j) < world_size) \<Longrightarrow>
   \<exists>k. predivide_loop world_size factor = 2 ^ k \<and>
       (\<forall>j<k. int (2 ^ j) dvd world_size \<and> int (2 ^ j) * int (2 ^ j) < world_size) \<and>
       (\<not> int (2 ^ k) dvd world_size \<or> world_size \<le> int (2 ^ k) * int (2 ^ k))"
proof (induction world_size factor arbitrary: i rule: predivide_loop.induct)
  case (1 world_size factor)
  have pos: "0 < factor"
    using "1.prems"(1) by simp
  show ?case
  proof (cases "world_size mod int factor = 0 \<and> real factor < real_of_int world_size / real factor")
    case True
    then have d: "int (2 ^ i) dvd world_size"
      using "1.prems"(1) by (simp add: dvd_eq_mod_eq_0)
    from True pos have "int factor * int factor < world_size"
      by (simp add: predivide_cond_iff)
    then have l: "int (2 ^ i) * int (2 ^ i) < world_size"
      using "1.prems"(1) by simp
    have inv: "\<forall>j<Suc i. int (2 ^ j) dvd world_size \<and> int (2 ^ j) * int (2 ^ j) < world_size"
      using "1.prems"(2) d l by (auto simp add: less_Suc_eq)
    have f2: "factor * 2 = 2 ^ Suc i"
      using "1.prems"(1) by simp
    have "predivide_loop world_size factor = predivide_loop world_size (factor * 2)"
      by (subst predivide_loop.simps) (simp only: True simp_thms if_True)
    with "1.IH" [OF True f2 inv] show ?thesis
      by simp
  next
    case False
    have "predivide_loop world_size factor = factor"
      by (subst predivide_loop.simps) (simp only: False simp_thms if_False)
    then have r: "predivide_loop world_size factor = 2 ^ i"
      using "1.prems"(1) by simp
    from False pos have "\<not> int factor dvd world_size \<or> world_size \<le> int factor * int factor"
      by (auto simp add: predivide_cond_iff dvd_eq_mod_eq_0)
    then have "\<not> int (2 ^ i) dvd world_size \<or> world_size \<le> int (2 ^ i) * int (2 ^ i)"
      using "1.prems"(1) by simp
    with r "1.prems"(2) show ?thesis
      by blast
  qed
qed

text \<open>
  C3, as the code has it. \<^verbatim>\<open>get_gradient_predivide_factor(world_size)\<close> returns a
  power of two \<open>2 ^ k\<close> such that every smaller power of two divides
  \<^verbatim>\<open>world_size\<close> and has a square below \<^verbatim>\<open>world_size\<close>, while \<open>2 ^ k\<close> itself
  does not divide \<^verbatim>\<open>world_size\<close> or has a square of at least \<^verbatim>\<open>world_size\<close>:
  the smallest power of two at which the loop condition fails.
\<close>

theorem predivide_factor_smallest:
  "\<exists>k. get_gradient_predivide_factor world_size = 2 ^ k \<and>
       (\<forall>j<k. int (2 ^ j) dvd world_size \<and> int (2 ^ j) * int (2 ^ j) < world_size) \<and>
       (\<not> int (2 ^ k) dvd world_size \<or> world_size \<le> int (2 ^ k) * int (2 ^ k))"
  unfolding get_gradient_predivide_factor_def
  using predivide_loop_spec [of 1 0 world_size] by simp

theorem predivide_factor_smallest_witness:
  "\<exists>k. get_gradient_predivide_factor 12 = 2 ^ k \<and>
       (\<forall>j<k. int (2 ^ j) dvd 12 \<and> int (2 ^ j) * int (2 ^ j) < 12) \<and>
       (\<not> int (2 ^ k) dvd 12 \<or> 12 \<le> int (2 ^ k) * int (2 ^ k))"
  using predivide_factor_smallest [of 12] by simp

text \<open>
  The result need not divide \<^verbatim>\<open>world_size\<close> (at 3 it is 2) and need not stay
  at or below the square root (at 2 it is 2, and \<open>2 * 2 > 2\<close>).
\<close>

theorem predivide_factor_counterexample:
  "get_gradient_predivide_factor 3 = 2 \<and> \<not> (2::int) dvd 3 \<and>
   get_gradient_predivide_factor 2 = 2 \<and> \<not> ((2::int) * 2 \<le> 2)"
  by (simp add: get_gradient_predivide_factor_def predivide_loop.simps)

section \<open>Properties of sharding\<close>

lemma ceil_div_cover: "0 < k \<Longrightarrow> n \<le> k * ((n + k - 1) div k)" for n k :: nat
proof -
  assume k: "0 < k"
  have "n + k - 1 = k * ((n + k - 1) div k) + (n + k - 1) mod k"
    by simp
  moreover have "(n + k - 1) mod k < k"
    using k by simp
  ultimately show ?thesis
    by linarith
qed

lemma ceil_div_pos: "0 < k \<Longrightarrow> 0 < n \<Longrightarrow> 0 < (n + k - 1) div k" for n k :: nat
  by (simp add: div_greater_zero_iff)

lemma ceil_div_le: "0 < k \<Longrightarrow> n \<le> k * s \<Longrightarrow> (n + s - 1) div s \<le> k" for n k s :: nat
proof (cases "s = 0")
  case True
  then show ?thesis by simp
next
  case False
  assume "0 < k" and le: "n \<le> k * s"
  from False le have "n + s - 1 < (Suc k) * s"
    by simp
  then have "(n + s - 1) div s < Suc k"
    using False by (simp add: less_mult_imp_div_less)
  then show ?thesis by simp
qed

lemma concat_take_drop:
  "concat (map (\<lambda>i. take s (drop (i * s) xs)) [0..<m]) = take (m * s) xs"
proof (induction m)
  case 0
  show ?case by simp
next
  case (Suc m)
  have "Suc m * s = m * s + s"
    by simp
  then have "take (Suc m * s) xs = take (m * s) xs @ take s (drop (m * s) xs)"
    by (simp only: take_add)
  with Suc show ?case by simp
qed

lemma torch_split_props:
  assumes "0 < split_size"
  shows "length (torch_split xs split_size) = max ((length xs + split_size - 1) div split_size) 1"
    and "concat (torch_split xs split_size) = xs"
    and "\<forall>c \<in> set (torch_split xs split_size). length c \<le> split_size"
    and "split_size \<le> length xs \<Longrightarrow> length (torch_split xs split_size ! 0) = split_size"
    and "\<forall>i. Suc i < length (torch_split xs split_size) \<longrightarrow>
           length (torch_split xs split_size ! i) = split_size"
proof -
  let ?m = "max ((length xs + split_size - 1) div split_size) 1"
  show "length (torch_split xs split_size) = ?m"
    by (simp add: torch_split_def Let_def)
  have "length xs \<le> split_size * ((length xs + split_size - 1) div split_size)"
    using assms by (rule ceil_div_cover)
  also have "\<dots> \<le> ?m * split_size"
    by (simp add: mult.commute)
  finally have "take (?m * split_size) xs = xs"
    by simp
  then show "concat (torch_split xs split_size) = xs"
    by (simp add: torch_split_def Let_def concat_take_drop)
  show "\<forall>c \<in> set (torch_split xs split_size). length c \<le> split_size"
    by (auto simp add: torch_split_def Let_def)
  assume "split_size \<le> length xs"
  moreover have "torch_split xs split_size ! 0 = take split_size xs"
  proof -
    have "0 < ?m" by simp
    then have "map (\<lambda>i. take split_size (drop (i * split_size) xs)) [0..<?m] ! 0
        = take split_size (drop (0 * split_size) xs)"
      by (simp only: nth_map_upt) simp
    then show ?thesis
      by (simp add: torch_split_def Let_def)
  qed
  ultimately show "length (torch_split xs split_size ! 0) = split_size"
    by simp
next
  let ?m = "max ((length xs + split_size - 1) div split_size) 1"
  show "\<forall>i. Suc i < length (torch_split xs split_size) \<longrightarrow>
           length (torch_split xs split_size ! i) = split_size"
  proof (intro allI impI)
    fix i
    assume "Suc i < length (torch_split xs split_size)"
    then have i: "Suc i < ?m"
      by (simp add: torch_split_def Let_def)
    then have m: "?m = (length xs + split_size - 1) div split_size"
      by (simp add: max_def split: if_splits)
    have "Suc (Suc i) \<le> (length xs + split_size - 1) div split_size"
      using i m by simp
    then have "Suc (Suc i) * split_size \<le> length xs + split_size - 1"
      using assms by (simp add: less_eq_div_iff_mult_less_eq)
    then have full: "Suc i * split_size \<le> length xs"
      using assms by simp
    have "i < ?m" using i by simp
    then have "map (\<lambda>i. take split_size (drop (i * split_size) xs)) [0..<?m] ! i
        = take split_size (drop (i * split_size) xs)"
      by (simp only: nth_map_upt) simp
    then have "torch_split xs split_size ! i = take split_size (drop (i * split_size) xs)"
      by (simp add: torch_split_def Let_def)
    with full show "length (torch_split xs split_size ! i) = split_size"
      by simp
  qed
qed

lemma torch_chunk_eq: "0 < chunks \<Longrightarrow> torch_chunk xs chunks = Inr (chunks_of xs chunks)"
  by (auto simp add: torch_chunk_def chunks_of_def chunk_numel_def Let_def)

lemma chunk_numel_empty: "chunk_numel [] chunks = 0"
  by (cases "0 < chunks") (simp_all add: chunk_numel_def)

lemma chunk_numel_bounds:
  assumes "0 < chunks" and "xs \<noteq> []"
  shows "0 < chunk_numel xs chunks" and "chunk_numel xs chunks \<le> length xs"
    and "length xs \<le> nat chunks * chunk_numel xs chunks"
proof -
  let ?k = "nat chunks"
  have k: "0 < ?k" using assms(1) by simp
  have n: "0 < length xs" using assms(2) by simp
  show "0 < chunk_numel xs chunks"
    unfolding chunk_numel_def using k n by (rule ceil_div_pos)
  show "length xs \<le> ?k * chunk_numel xs chunks"
    unfolding chunk_numel_def using k by (rule ceil_div_cover)
  obtain n' where n': "length xs = Suc n'"
    using n by (cases "length xs") simp_all
  obtain k' where k': "?k = Suc k'"
    using k by (cases "?k") simp_all
  have "length xs + ?k - 1 \<le> length xs * ?k"
    unfolding n' k' by simp
  then have "(length xs + ?k - 1) div ?k \<le> (length xs * ?k) div ?k"
    by (rule div_le_mono)
  also have "\<dots> = length xs"
    using k by simp
  finally show "chunk_numel xs chunks \<le> length xs"
    unfolding chunk_numel_def .
qed

lemma chunks_of_props:
  assumes "0 < chunks"
  shows chunks_of_nonempty: "chunks_of xs chunks \<noteq> []"
    and chunks_of_length: "length (chunks_of xs chunks) \<le> nat chunks"
    and chunks_of_concat: "concat (chunks_of xs chunks) = xs"
    and chunks_of_bound: "\<forall>c \<in> set (chunks_of xs chunks). length c \<le> chunk_numel xs chunks"
    and chunks_of_first: "length (chunks_of xs chunks ! 0) = chunk_numel xs chunks"
    and chunks_of_full: "\<forall>i. Suc i < length (chunks_of xs chunks) \<longrightarrow>
           length (chunks_of xs chunks ! i) = chunk_numel xs chunks"
proof -
  let ?k = "nat chunks"
  let ?s = "chunk_numel xs chunks"
  have k: "0 < ?k" using assms by simp
  have "chunks_of xs chunks \<noteq> [] \<and> length (chunks_of xs chunks) \<le> ?k \<and>
      concat (chunks_of xs chunks) = xs \<and>
      (\<forall>c \<in> set (chunks_of xs chunks). length c \<le> ?s) \<and>
      length (chunks_of xs chunks ! 0) = ?s \<and>
      (\<forall>i. Suc i < length (chunks_of xs chunks) \<longrightarrow> length (chunks_of xs chunks ! i) = ?s)"
  proof (cases "xs = []")
    case True
    then have "chunks_of xs chunks = replicate ?k []"
      by (simp add: chunks_of_def)
    moreover have "?s = 0"
      using True by (simp add: chunk_numel_empty)
    ultimately show ?thesis
      using True k by simp
  next
    case False
    note b = chunk_numel_bounds [OF assms False]
    have eq: "chunks_of xs chunks = torch_split xs ?s"
      using False by (simp add: chunks_of_def)
    have len: "length (torch_split xs ?s) \<le> ?k"
      using torch_split_props(1) [OF b(1), of xs] ceil_div_le [OF k b(3)] k by simp
    have ne: "torch_split xs ?s \<noteq> []"
      using torch_split_props(1) [OF b(1), of xs] by auto
    show ?thesis
      unfolding eq
      using len ne torch_split_props(2,3,5) [OF b(1), of xs] torch_split_props(4) [OF b(1) b(2)]
      by simp
  qed
  then show "chunks_of xs chunks \<noteq> []" and "length (chunks_of xs chunks) \<le> nat chunks"
    and "concat (chunks_of xs chunks) = xs"
    and "\<forall>c \<in> set (chunks_of xs chunks). length c \<le> chunk_numel xs chunks"
    and "length (chunks_of xs chunks ! 0) = chunk_numel xs chunks"
    and "\<forall>i. Suc i < length (chunks_of xs chunks) \<longrightarrow>
           length (chunks_of xs chunks ! i) = chunk_numel xs chunks"
    by simp_all
qed

lemma list_getitem_nat: "i < length xs \<Longrightarrow> list_getitem xs (int i) = Inr (xs ! i)"
  by (simp add: list_getitem_def)

lemma list_getitem_last: "xs \<noteq> [] \<Longrightarrow> list_getitem xs (- 1) = Inr (xs ! (length xs - 1))"
proof -
  assume "xs \<noteq> []"
  then have pos: "0 < length xs" by simp
  then have "nat (int (length xs) + - 1) = length xs - 1"
    by linarith
  moreover have "- int (length xs) \<le> - 1"
    using pos by linarith
  ultimately show ?thesis
    by (simp add: list_getitem_def)
qed

lemma list_getitem_mem: "list_getitem xs i = Inr x \<Longrightarrow> x \<in> set xs"
proof -
  assume g: "list_getitem xs i = Inr x"
  consider "0 \<le> i \<and> i < int (length xs)" | "i < 0 \<and> - int (length xs) \<le> i"
    using g by (auto simp add: list_getitem_def split: if_splits)
  then show ?thesis
  proof cases
    case 1
    then have "nat i < length xs" by linarith
    moreover from 1 g have "x = xs ! nat i"
      by (simp add: list_getitem_def)
    ultimately show ?thesis by simp
  next
    case 2
    then have "nat (int (length xs) + i) < length xs" by linarith
    moreover from 2 g have "x = xs ! nat (int (length xs) + i)"
      by (simp add: list_getitem_def)
    ultimately show ?thesis by simp
  qed
qed

lemma list_getitem_error: "list_getitem xs i = Inl e \<Longrightarrow> e = IndexError"
  by (auto simp add: list_getitem_def split: if_splits)

lemma append_empty_chunks_eq:
  "chunks \<noteq> [] \<Longrightarrow>
     append_empty_chunks chunks world_size
       = Inr (chunks @ replicate (nat world_size - length chunks) [])"
proof (induction chunks world_size rule: append_empty_chunks.induct)
  case (1 chunks world_size)
  show ?case
  proof (cases "int (length chunks) < world_size")
    case True
    have g: "list_getitem chunks 0 = Inr (chunks ! 0)"
      using list_getitem_nat [of 0 chunks] "1.prems" by simp
    have "append_empty_chunks (chunks @ [[]]) world_size
        = Inr ((chunks @ [[]]) @ replicate (nat world_size - length (chunks @ [[]])) [])"
      using "1.IH" [OF True g] by simp
    moreover have "nat world_size - length chunks = Suc (nat world_size - length (chunks @ [[]]))"
      using True by simp
    ultimately have "append_empty_chunks (chunks @ [[]]) world_size
        = Inr (chunks @ replicate (nat world_size - length chunks) [])"
      by (simp only: replicate_Suc append_assoc append_Cons append_Nil)
    moreover have "append_empty_chunks chunks world_size
        = append_empty_chunks (chunks @ [[]]) world_size"
      by (subst append_empty_chunks.simps) (simp add: True g)
    ultimately show ?thesis by simp
  next
    case False
    then have "nat world_size - length chunks = 0"
      by simp
    moreover have "append_empty_chunks chunks world_size = Inr chunks"
      by (subst append_empty_chunks.simps) (simp add: False)
    ultimately show ?thesis by simp
  qed
qed

lemma filled_chunks_props:
  assumes "0 < world_size"
  shows filled_chunks_length: "length (filled_chunks tensor world_size) = nat world_size"
    and filled_chunks_concat: "concat (filled_chunks tensor world_size) = tensor"
    and filled_chunks_bound:
      "\<forall>c \<in> set (filled_chunks tensor world_size). length c \<le> chunk_numel tensor world_size"
    and filled_chunks_first:
      "length (filled_chunks tensor world_size ! 0) = chunk_numel tensor world_size"
proof -
  show "length (filled_chunks tensor world_size) = nat world_size"
    using chunks_of_length [OF assms, of tensor] by (simp add: filled_chunks_def)
  show "concat (filled_chunks tensor world_size) = tensor"
    using chunks_of_concat [OF assms, of tensor] by (simp add: filled_chunks_def)
  show "\<forall>c \<in> set (filled_chunks tensor world_size). length c \<le> chunk_numel tensor world_size"
    using chunks_of_bound [OF assms, of tensor] by (auto simp add: filled_chunks_def)
  show "length (filled_chunks tensor world_size ! 0) = chunk_numel tensor world_size"
    using chunks_of_first [OF assms, of tensor] chunks_of_nonempty [OF assms, of tensor]
    by (simp add: filled_chunks_def nth_append)
qed

lemma get_shard_unfold:
  assumes "0 < world_size"
  shows "get_shard tensor rank world_size
           = (case list_getitem (filled_chunks tensor world_size) rank of
                Inl e \<Rightarrow> Inl e
              | Inr shard \<Rightarrow>
                  Inr (shard @ replicate (chunk_numel tensor world_size - length shard) 0,
                       int (chunk_numel tensor world_size) - int (length shard)))"
proof -
  let ?s = "chunk_numel tensor world_size"
  let ?chunks = "filled_chunks tensor world_size"
  have ch: "torch_chunk tensor world_size = Inr (chunks_of tensor world_size)"
    using assms by (rule torch_chunk_eq)
  have fill: "append_empty_chunks (chunks_of tensor world_size) world_size = Inr ?chunks"
    unfolding filled_chunks_def
    using chunks_of_nonempty [OF assms] by (rule append_empty_chunks_eq)
  have pos: "0 < length ?chunks"
    using assms by (simp add: filled_chunks_length)
  have c0: "list_getitem ?chunks 0 = Inr (?chunks ! 0)"
    using list_getitem_nat [OF pos] by simp
  have l0: "length (?chunks ! 0) = ?s"
    using assms by (rule filled_chunks_first)
  show ?thesis
  proof (cases "list_getitem ?chunks rank")
    case (Inl e)
    then show ?thesis
      by (simp add: get_shard_def ch fill c0)
  next
    case (Inr shard)
    then have "shard \<in> set ?chunks"
      by (rule list_getitem_mem)
    with filled_chunks_bound [OF assms] have le: "length shard \<le> ?s"
      by (rule bspec)
    show ?thesis
    proof (cases "length shard = ?s")
      case True
      then show ?thesis
        by (simp add: get_shard_def ch fill c0 Inr l0 Let_def)
    next
      case False
      with le have "length shard < ?s" by simp
      then show ?thesis
        by (simp add: get_shard_def ch fill c0 Inr l0 Let_def F_pad_def nat_diff_distrib')
    qed
  qed
qed

lemma get_shard_rank:
  assumes "0 < world_size" and "r < nat world_size"
  shows "get_shard tensor (int r) world_size
           = Inr (filled_chunks tensor world_size ! r
                    @ replicate (chunk_numel tensor world_size
                                  - length (filled_chunks tensor world_size ! r)) 0,
                  int (chunk_numel tensor world_size)
                    - int (length (filled_chunks tensor world_size ! r)))"
    and "length (filled_chunks tensor world_size ! r) \<le> chunk_numel tensor world_size"
proof -
  have rl: "r < length (filled_chunks tensor world_size)"
    using assms by (simp add: filled_chunks_length)
  then have "list_getitem (filled_chunks tensor world_size) (int r)
      = Inr (filled_chunks tensor world_size ! r)"
    by (rule list_getitem_nat)
  then show "get_shard tensor (int r) world_size
           = Inr (filled_chunks tensor world_size ! r
                    @ replicate (chunk_numel tensor world_size
                                  - length (filled_chunks tensor world_size ! r)) 0,
                  int (chunk_numel tensor world_size)
                    - int (length (filled_chunks tensor world_size ! r)))"
    by (simp add: get_shard_unfold [OF assms(1)])
  have "filled_chunks tensor world_size ! r \<in> set (filled_chunks tensor world_size)"
    using rl by simp
  with filled_chunks_bound [OF assms(1)]
  show "length (filled_chunks tensor world_size ! r) \<le> chunk_numel tensor world_size"
    by (rule bspec)
qed

lemma sum_list_int_length_concat: "sum_list (map (\<lambda>c. int (length c)) xss) = int (length (concat xss))"
  by (induction xss) simp_all

text \<open>
  C1. For every tensor and every positive \<^verbatim>\<open>world_size\<close>, the calls
  \<^verbatim>\<open>get_shard(tensor, r, world_size)\<close> for the ranks \<open>r = 0, \<dots>, world_size - 1\<close>
  all return a shard of the same element count (the chunk size), and the element counts
  of the shards summed over the ranks, minus the pad counts summed over the ranks, is the
  element count of the tensor.
\<close>

theorem get_shard_uniform_total:
  assumes "0 < world_size"
  shows "(\<forall>r < nat world_size. \<exists>shard num_to_pad.
            get_shard tensor (int r) world_size = Inr (shard, num_to_pad) \<and>
            length shard = chunk_numel tensor world_size) \<and>
         sum_list (map (\<lambda>r. shard_numel (get_shard tensor (int r) world_size)) [0..<nat world_size])
           - sum_list (map (\<lambda>r. shard_padding (get_shard tensor (int r) world_size)) [0..<nat world_size])
           = int (length tensor)"
proof (rule conjI)
  let ?s = "chunk_numel tensor world_size"
  let ?n = "nat world_size"
  let ?chunks = "filled_chunks tensor world_size"
  note res = get_shard_rank(1) [OF assms, of _ tensor]
  note le = get_shard_rank(2) [OF assms, of _ tensor]
  show "\<forall>r < ?n. \<exists>shard num_to_pad.
      get_shard tensor (int r) world_size = Inr (shard, num_to_pad) \<and> length shard = ?s"
  proof (intro allI impI)
    fix r assume r: "r < ?n"
    have "length (?chunks ! r @ replicate (?s - length (?chunks ! r)) (0::'a)) = ?s"
      using le [OF r] by simp
    with res [OF r] show "\<exists>shard num_to_pad.
        get_shard tensor (int r) world_size = Inr (shard, num_to_pad) \<and> length shard = ?s"
      by blast
  qed
  have numel: "map (\<lambda>r. shard_numel (get_shard tensor (int r) world_size)) [0..<?n]
      = map (\<lambda>r. int ?s) [0..<?n]"
  proof (rule map_cong [OF refl])
    fix r assume "r \<in> set [0..<?n]"
    then have r: "r < ?n" by simp
    show "shard_numel (get_shard tensor (int r) world_size) = int ?s"
      using le [OF r] by (simp add: res [OF r] shard_numel_def)
  qed
  have pad: "map (\<lambda>r. shard_padding (get_shard tensor (int r) world_size)) [0..<?n]
      = map (\<lambda>r. int ?s - int (length (?chunks ! r))) [0..<?n]"
  proof (rule map_cong [OF refl])
    fix r assume "r \<in> set [0..<?n]"
    then have r: "r < ?n" by simp
    show "shard_padding (get_shard tensor (int r) world_size) = int ?s - int (length (?chunks ! r))"
      by (simp add: res [OF r] shard_padding_def)
  qed
  have len: "length ?chunks = ?n"
    using assms by (rule filled_chunks_length)
  have "sum_list (map (\<lambda>r. int ?s) [0..<?n])
        - sum_list (map (\<lambda>r. int ?s - int (length (?chunks ! r))) [0..<?n])
      = sum_list (map (\<lambda>r. int (length (?chunks ! r))) [0..<?n])"
    by (simp add: sum_list_subtractf)
  also have "\<dots> = sum_list (map (\<lambda>c. int (length c)) (map (\<lambda>r. ?chunks ! r) [0..<length ?chunks]))"
    by (simp add: len comp_def)
  also have "\<dots> = sum_list (map (\<lambda>c. int (length c)) ?chunks)"
    by (simp only: map_nth)
  also have "\<dots> = int (length (concat ?chunks))"
    by (rule sum_list_int_length_concat)
  also have "\<dots> = int (length tensor)"
    using assms by (simp only: filled_chunks_concat)
  finally show "sum_list (map (\<lambda>r. shard_numel (get_shard tensor (int r) world_size)) [0..<?n])
        - sum_list (map (\<lambda>r. shard_padding (get_shard tensor (int r) world_size)) [0..<?n])
        = int (length tensor)"
    by (simp only: numel pad)
qed

theorem get_shard_uniform_total_witness:
  "(0::int) < 4 \<and>
   get_shard [1, 2, 3, 4, 5 :: int] 0 4 = Inr ([1, 2], 0) \<and>
   get_shard [1, 2, 3, 4, 5 :: int] 1 4 = Inr ([3, 4], 0) \<and>
   get_shard [1, 2, 3, 4, 5 :: int] 2 4 = Inr ([5, 0], 1) \<and>
   get_shard [1, 2, 3, 4, 5 :: int] 3 4 = Inr ([0, 0], 2) \<and>
   chunk_numel [1, 2, 3, 4, 5 :: int] 4 = 2 \<and>
   sum_list (map (\<lambda>r. shard_numel (get_shard [1, 2, 3, 4, 5 :: int] (int r) 4)) [0..<nat 4])
     - sum_list (map (\<lambda>r. shard_padding (get_shard [1, 2, 3, 4, 5 :: int] (int r) 4)) [0..<nat 4])
     = 5"
proof -
  have h: "(0::int) < 4" by simp
  have s: "chunk_numel [1, 2, 3, 4, 5 :: int] 4 = 2"
    by (simp add: chunk_numel_def)
  have r0: "get_shard [1, 2, 3, 4, 5 :: int] 0 4 = Inr ([1, 2], 0)"
    by code_simp
  have r1: "get_shard [1, 2, 3, 4, 5 :: int] 1 4 = Inr ([3, 4], 0)"
    by code_simp
  have r2: "get_shard [1, 2, 3, 4, 5 :: int] 2 4 = Inr ([5, 0], 1)"
    by code_simp
  have r3: "get_shard [1, 2, 3, 4, 5 :: int] 3 4 = Inr ([0, 0], 2)"
    by code_simp
  from get_shard_uniform_total [OF h, of "[1, 2, 3, 4, 5 :: int]"]
  have "sum_list (map (\<lambda>r. shard_numel (get_shard [1, 2, 3, 4, 5 :: int] (int r) 4)) [0..<nat 4])
     - sum_list (map (\<lambda>r. shard_padding (get_shard [1, 2, 3, 4, 5 :: int] (int r) 4)) [0..<nat 4])
     = 5"
    by simp
  with h s r0 r1 r2 r3 show ?thesis
    by (intro conjI)
qed

text \<open>
  C4. \<^verbatim>\<open>get_shard\<close> never fails its assertion, whatever the tensor, the rank and
  \<^verbatim>\<open>world_size\<close>; for a positive \<^verbatim>\<open>world_size\<close> and a rank from 0 to
  \<^verbatim>\<open>world_size - 1\<close> it returns a shard and a pad count \<^verbatim>\<open>num_to_pad\<close> that is
  not negative.
\<close>

theorem get_shard_assertion_unreachable:
  "get_shard tensor rank world_size \<noteq> Inl AssertionError \<and>
   (0 < world_size \<and> 0 \<le> rank \<and> rank < world_size \<longrightarrow>
      (\<exists>shard num_to_pad. get_shard tensor rank world_size = Inr (shard, num_to_pad) \<and>
         0 \<le> num_to_pad))"
proof (cases "0 < world_size")
  case False
  then have "get_shard tensor rank world_size = Inl RuntimeError"
    by (simp add: get_shard_def torch_chunk_def)
  with False show ?thesis by simp
next
  case True
  let ?s = "chunk_numel tensor world_size"
  let ?chunks = "filled_chunks tensor world_size"
  note unfold = get_shard_unfold [OF True, of tensor rank]
  have no_assert: "get_shard tensor rank world_size \<noteq> Inl AssertionError"
  proof (cases "list_getitem ?chunks rank")
    case (Inl e)
    then have "e = IndexError"
      by (rule list_getitem_error)
    with Inl unfold show ?thesis by simp
  next
    case (Inr shard)
    with unfold show ?thesis by simp
  qed
  have "\<exists>shard num_to_pad. get_shard tensor rank world_size = Inr (shard, num_to_pad) \<and>
      0 \<le> num_to_pad" if r: "0 \<le> rank" "rank < world_size"
  proof -
    have n: "nat rank < nat world_size"
      using r by simp
    have "get_shard tensor (int (nat rank)) world_size
        = Inr (?chunks ! nat rank @ replicate (?s - length (?chunks ! nat rank)) 0,
               int ?s - int (length (?chunks ! nat rank)))"
      using True n by (rule get_shard_rank(1))
    moreover have "length (?chunks ! nat rank) \<le> ?s"
      using True n by (rule get_shard_rank(2))
    ultimately show ?thesis
      using r(1) by simp
  qed
  with no_assert show ?thesis by simp
qed

theorem get_shard_assertion_unreachable_witness:
  "get_shard [1, 2, 3, 4, 5 :: int] 3 4 \<noteq> Inl AssertionError \<and>
   (0::int) < 4 \<and> (0::int) \<le> 3 \<and> (3::int) < 4 \<and>
   (\<exists>shard num_to_pad. get_shard [1, 2, 3, 4, 5 :: int] 3 4 = Inr (shard, num_to_pad) \<and>
      0 \<le> num_to_pad)"
  using get_shard_assertion_unreachable [of "[1, 2, 3, 4, 5 :: int]" 3 4] by simp

lemma list_update_last: "xs \<noteq> [] \<Longrightarrow> xs[length xs - Suc 0 := x] = butlast xs @ [x]"
  by (induction xs rule: rev_induct) simp_all

lemma concat_replicate_zeros: "concat (replicate m (replicate s z)) = replicate (m * s) z"
  by (induction m) (simp_all add: replicate_add)

lemma chunk_and_pad_eq:
  assumes "0 < num_chunks"
  shows "chunk_and_pad tensor num_chunks
     = Inr (butlast (chunks_of tensor num_chunks)
            @ [last (chunks_of tensor num_chunks)
                 @ replicate (chunk_numel tensor num_chunks
                               - length (last (chunks_of tensor num_chunks))) 0]
            @ replicate (nat num_chunks - length (chunks_of tensor num_chunks))
                (replicate (chunk_numel tensor num_chunks) 0))"
proof -
  let ?cs = "chunks_of tensor num_chunks"
  let ?s = "chunk_numel tensor num_chunks"
  let ?last = "last ?cs"
  let ?padded = "?last @ replicate (?s - length ?last) 0"
  let ?chunks1 = "butlast ?cs @ [?padded]"
  have ne: "?cs \<noteq> []"
    using assms by (rule chunks_of_nonempty)
  have ch: "torch_chunk tensor num_chunks = Inr ?cs"
    using assms by (rule torch_chunk_eq)
  have pos: "0 < length ?cs"
    using ne by simp
  have c0: "list_getitem ?cs 0 = Inr (?cs ! 0)"
    using list_getitem_nat [OF pos] by simp
  have cl: "list_getitem ?cs (- 1) = Inr ?last"
    using list_getitem_last [OF ne] ne by (simp add: last_conv_nth)
  have l0: "length (?cs ! 0) = ?s"
    using assms by (rule chunks_of_first)
  have "?last \<in> set ?cs"
    using ne by simp
  with chunks_of_bound [OF assms] have le: "length ?last \<le> ?s"
    by (rule bspec)
  have upd: "(if int ?s - int (length ?last) > 0
              then ?cs[length ?cs - 1 := F_pad ?last (nat (int ?s - int (length ?last)))]
              else ?cs) = ?chunks1"
  proof (cases "length ?last = ?s")
    case True
    then show ?thesis
      using ne by simp
  next
    case False
    with le have "length ?last < ?s" by simp
    then show ?thesis
      using ne by (simp add: list_update_last F_pad_def nat_diff_distrib')
  qed
  have len1: "length ?chunks1 = length ?cs"
    using ne by simp
  have pos1: "0 < length ?chunks1"
    by simp
  have c1: "list_getitem ?chunks1 0 = Inr (?chunks1 ! 0)"
    using list_getitem_nat [OF pos1] by simp
  have l1: "length (?chunks1 ! 0) = ?s"
  proof (cases "length ?cs = 1")
    case True
    then have "butlast ?cs = []"
      by (cases ?cs) simp_all
    then show ?thesis
      using le by simp
  next
    case False
    with pos have "1 < length ?cs"
      by linarith
    then have "0 < length (butlast ?cs)"
      by simp
    then have "?chunks1 ! 0 = ?cs ! 0"
      by (simp add: nth_append nth_butlast)
    with l0 show ?thesis by simp
  qed
  have z: "zeros_like (?chunks1 ! 0) = replicate ?s 0"
    by (simp only: zeros_like_def l1)
  have "chunk_and_pad tensor num_chunks
      = (if int (length ?chunks1) < num_chunks
         then Inr (?chunks1 @ replicate (nat (num_chunks - int (length ?chunks1))) (replicate ?s 0))
         else Inr ?chunks1)"
    unfolding chunk_and_pad_def ch sum.case c0 cl l0 Let_def upd c1 z ..
  also have "\<dots> = Inr (?chunks1 @ replicate (nat num_chunks - length ?cs) (replicate ?s 0))"
  proof (cases "int (length ?cs) < num_chunks")
    case True
    have "nat (num_chunks - int (length ?cs)) = nat num_chunks - length ?cs"
      by linarith
    with True show ?thesis
      by (simp only: len1 if_True)
  next
    case False
    then have "nat num_chunks - length ?cs = 0"
      by linarith
    with False show ?thesis
      by (simp only: len1 if_False replicate_0 append_Nil2)
  qed
  finally show ?thesis
    by simp
qed

lemma concat_butlast_last: "xs \<noteq> [] \<Longrightarrow> concat (butlast xs) @ last xs = concat xs"
  by (induction xs rule: rev_induct) simp_all

lemma length_concat_uniform:
  "\<forall>c \<in> set xss. length c = s \<Longrightarrow> length (concat xss) = length xss * s"
  by (induction xss) simp_all

text \<open>
  C2. For every tensor and every \<^verbatim>\<open>num_chunks\<close> of at least 1,
  \<^verbatim>\<open>chunk_and_pad(tensor, num_chunks)\<close> returns a list of exactly \<^verbatim>\<open>num_chunks\<close>
  tensors, all of the same element count (the chunk size); put end to end they are the
  elements of the tensor followed by zeros only.
\<close>

theorem chunk_and_pad_equal_chunks:
  assumes "1 \<le> num_chunks"
  shows "\<exists>chunks. chunk_and_pad tensor num_chunks = Inr chunks \<and>
           int (length chunks) = num_chunks \<and>
           (\<forall>c \<in> set chunks. length c = chunk_numel tensor num_chunks) \<and>
           concat chunks
             = tensor @ replicate (nat num_chunks * chunk_numel tensor num_chunks - length tensor) 0"
proof -
  let ?cs = "chunks_of tensor num_chunks"
  let ?s = "chunk_numel tensor num_chunks"
  let ?k = "nat num_chunks"
  let ?p = "?s - length (last ?cs)"
  let ?padded = "last ?cs @ replicate ?p 0"
  let ?extra = "replicate (?k - length ?cs) (replicate ?s (0::'a))"
  let ?chunks = "butlast ?cs @ [?padded] @ ?extra"
  have pos: "0 < num_chunks"
    using assms by simp
  have eq: "chunk_and_pad tensor num_chunks = Inr ?chunks"
    using pos by (rule chunk_and_pad_eq)
  have ne: "?cs \<noteq> []"
    using pos by (rule chunks_of_nonempty)
  have len: "length ?cs \<le> ?k"
    using pos by (rule chunks_of_length)
  have "last ?cs \<in> set ?cs"
    using ne by simp
  with chunks_of_bound [OF pos] have le: "length (last ?cs) \<le> ?s"
    by (rule bspec)
  have count: "int (length ?chunks) = num_chunks"
  proof -
    obtain m where m: "length ?cs = Suc m"
      using ne by (cases ?cs) simp_all
    have "length ?chunks = length (butlast ?cs) + 1 + (?k - length ?cs)"
      by simp
    also have "\<dots> = ?k"
      using len by (simp add: m)
    finally have "length ?chunks = ?k" .
    then show ?thesis
      using pos by simp
  qed
  have full: "length c = ?s" if "c \<in> set (butlast ?cs)" for c
  proof -
    from that obtain i where i: "i < length (butlast ?cs)" "c = butlast ?cs ! i"
      by (auto simp add: in_set_conv_nth)
    then have "Suc i < length ?cs"
      by simp
    moreover have "c = ?cs ! i"
      using i by (simp add: nth_butlast)
    ultimately show ?thesis
      using chunks_of_full [OF pos, of tensor] by simp
  qed
  have uniform: "\<forall>c \<in> set ?chunks. length c = ?s"
  proof
    fix c assume "c \<in> set ?chunks"
    then consider "c \<in> set (butlast ?cs)" | "c = ?padded" | "c \<in> set ?extra"
      by auto
    then show "length c = ?s"
    proof cases
      case 1
      then show ?thesis by (rule full)
    next
      case 2
      then show ?thesis using le by simp
    next
      case 3
      then show ?thesis by simp
    qed
  qed
  have cat: "concat ?chunks = tensor @ replicate (?p + (?k - length ?cs) * ?s) 0"
  proof -
    have "concat ?chunks = (concat (butlast ?cs) @ last ?cs) @ replicate ?p 0 @ concat ?extra"
      by simp
    also have "\<dots> = concat ?cs @ replicate ?p 0 @ replicate ((?k - length ?cs) * ?s) 0"
      by (simp only: concat_butlast_last [OF ne] concat_replicate_zeros)
    also have "\<dots> = tensor @ replicate (?p + (?k - length ?cs) * ?s) 0"
      using pos by (simp add: chunks_of_concat replicate_add)
    finally show ?thesis .
  qed
  have "length (concat ?chunks) = length ?chunks * ?s"
    using uniform by (rule length_concat_uniform)
  also have "\<dots> = ?k * ?s"
    using count by simp
  finally have "length tensor + (?p + (?k - length ?cs) * ?s) = ?k * ?s"
    by (simp only: cat length_append length_replicate)
  then have "?p + (?k - length ?cs) * ?s = ?k * ?s - length tensor"
    by linarith
  with cat have "concat ?chunks = tensor @ replicate (?k * ?s - length tensor) 0"
    by (simp only:)
  with eq count uniform show ?thesis
    by blast
qed

theorem chunk_and_pad_equal_chunks_witness:
  "(1::int) \<le> 4 \<and>
   chunk_and_pad [1, 2, 3, 4, 5 :: int] 4 = Inr [[1, 2], [3, 4], [5, 0], [0, 0]] \<and>
   chunk_numel [1, 2, 3, 4, 5 :: int] 4 = 2 \<and>
   (\<exists>chunks. chunk_and_pad [1, 2, 3, 4, 5 :: int] 4 = Inr chunks \<and>
      int (length chunks) = 4 \<and>
      (\<forall>c \<in> set chunks. length c = chunk_numel [1, 2, 3, 4, 5 :: int] 4) \<and>
      concat chunks
        = [1, 2, 3, 4, 5] @ replicate (nat 4 * chunk_numel [1, 2, 3, 4, 5 :: int] 4
                                        - length [1, 2, 3, 4, 5 :: int]) 0)"
proof -
  have h: "(1::int) \<le> 4" by simp
  have v: "chunk_and_pad [1, 2, 3, 4, 5 :: int] 4 = Inr [[1, 2], [3, 4], [5, 0], [0, 0]]"
    by code_simp
  have s: "chunk_numel [1, 2, 3, 4, 5 :: int] 4 = 2"
    by (simp add: chunk_numel_def)
  from h v s chunk_and_pad_equal_chunks [OF h, of "[1, 2, 3, 4, 5 :: int]"] show ?thesis
    by (intro conjI)
qed

section \<open>Properties of precision casting\<close>

lemma cast_fp16_match:
  "dtype t = float32 \<Longrightarrow> is_leaf t \<longrightarrow> is_leaf (half t) \<Longrightarrow>
     cast_trensor_to_fp16 half t = Inr (propagated t (half t))"
  by (simp add: cast_trensor_to_fp16_def set_requires_grad_def propagated_def Let_def)

lemma cast_fp32_match:
  "dtype t = float16 \<Longrightarrow> is_leaf t \<longrightarrow> is_leaf (float t) \<Longrightarrow>
     cast_trensor_to_fp32 float t = Inr (propagated t (float t))"
  by (simp add: cast_trensor_to_fp32_def set_requires_grad_def propagated_def Let_def)

lemma cast_fp16_other: "dtype t \<noteq> float32 \<Longrightarrow> cast_trensor_to_fp16 half t = Inr t"
  by (simp add: cast_trensor_to_fp16_def)

lemma cast_fp32_other: "dtype t \<noteq> float16 \<Longrightarrow> cast_trensor_to_fp32 float t = Inr t"
  by (simp add: cast_trensor_to_fp32_def)

lemma propagated_dtype: "dtype (propagated t out) = dtype out"
  by (simp add: propagated_def)

lemma propagated_is_leaf: "is_leaf (propagated t out) = is_leaf out"
  by (simp add: propagated_def)

lemma propagated_requires_grad: "is_leaf t \<Longrightarrow> requires_grad (propagated t out) = requires_grad t"
  by (simp add: propagated_def)

lemma cast_fp16_returns_dtype:
  "casts_to float16 half \<Longrightarrow> dtype t = float32 \<Longrightarrow> cast_trensor_to_fp16 half t = Inr out \<Longrightarrow>
     dtype out = float16"
  by (auto simp add: cast_trensor_to_fp16_def set_requires_grad_def casts_to_def Let_def
      split: if_splits)

lemma cast_fp32_returns_dtype:
  "casts_to float32 float \<Longrightarrow> dtype t = float16 \<Longrightarrow> cast_trensor_to_fp32 float t = Inr out \<Longrightarrow>
     dtype out = float32"
  by (auto simp add: cast_trensor_to_fp32_def set_requires_grad_def casts_to_def Let_def
      split: if_splits)

lemma fp16_fp32_fp16_returns_dtype:
  assumes "casts_to float16 half" and "casts_to float32 float" and "dtype t = float16"
    and "fp16_fp32_fp16 half float t = Inr out"
  shows "dtype out = float16"
proof -
  have a: "cast_trensor_to_fp16 half t = Inr t"
    using assms(3) by (simp add: cast_fp16_other)
  from assms(4) a obtain b where b: "cast_trensor_to_fp32 float t = Inr b"
      and c: "cast_trensor_to_fp16 half b = Inr out"
    by (auto simp add: fp16_fp32_fp16_def split: sum.splits)
  have "dtype b = float32"
    using assms(2,3) b by (rule cast_fp32_returns_dtype)
  with assms(1) show ?thesis
    using c by (rule cast_fp16_returns_dtype)
qed

lemma fp16_fp32_fp16_returns:
  assumes "casts_to float16 half" and "casts_to float32 float"
    and "keeps_leaf half" and "keeps_leaf float" and "dtype t = float16"
  shows "fp16_fp32_fp16 half float t
           = Inr (propagated (propagated t (float t)) (half (propagated t (float t))))"
proof -
  let ?b = "propagated t (float t)"
  have a: "cast_trensor_to_fp16 half t = Inr t"
    using assms(5) by (simp add: cast_fp16_other)
  have "is_leaf t \<longrightarrow> is_leaf (float t)"
    using assms(4) by (simp add: keeps_leaf_def)
  with assms(5) have b: "cast_trensor_to_fp32 float t = Inr ?b"
    by (rule cast_fp32_match)
  have db: "dtype ?b = float32"
    using assms(2) by (simp add: propagated_dtype casts_to_def)
  have "is_leaf ?b \<longrightarrow> is_leaf (half ?b)"
    using assms(3) by (simp add: keeps_leaf_def)
  with db have "cast_trensor_to_fp16 half ?b = Inr (propagated ?b (half ?b))"
    by (rule cast_fp16_match)
  with a b show ?thesis
    by (simp add: fp16_fp32_fp16_def)
qed

text \<open>
  C5, as the code has it. When the tensor that the library conversion returns is a leaf
  whenever the input is a leaf, a tensor whose \<^verbatim>\<open>dtype\<close> is the expected source
  precision (\<^verbatim>\<open>float32\<close> for the cast to fp16, \<^verbatim>\<open>float16\<close> for the cast to fp32) is
  cast to a new tensor of the target precision: the converted tensor, with, for a leaf
  input, its gradient requirement set to the input's. A tensor of any other \<^verbatim>\<open>dtype\<close>
  is returned unchanged. Casting an fp16 tensor to fp16, then to fp32, then to fp16
  returns, when the conversions return a leaf for a leaf, a tensor whose \<^verbatim>\<open>dtype\<close> is
  \<^verbatim>\<open>float16\<close>, and whenever it returns the \<^verbatim>\<open>dtype\<close> is \<^verbatim>\<open>float16\<close>.
\<close>

theorem cast_tensor_precision_when_leaf:
  assumes "casts_to float16 half" and "casts_to float32 float"
  shows "(dtype t = float32 \<and> (is_leaf t \<longrightarrow> is_leaf (half t)) \<longrightarrow>
            (\<exists>out. cast_trensor_to_fp16 half t = Inr out \<and>
               out = (if is_leaf t then (half t)\<lparr>requires_grad := requires_grad t\<rparr> else half t) \<and>
               dtype out = float16 \<and> out \<noteq> t \<and>
               (is_leaf t \<longrightarrow> requires_grad out = requires_grad t))) \<and>
         (dtype t = float16 \<and> (is_leaf t \<longrightarrow> is_leaf (float t)) \<longrightarrow>
            (\<exists>out. cast_trensor_to_fp32 float t = Inr out \<and>
               out = (if is_leaf t then (float t)\<lparr>requires_grad := requires_grad t\<rparr> else float t) \<and>
               dtype out = float32 \<and> out \<noteq> t \<and>
               (is_leaf t \<longrightarrow> requires_grad out = requires_grad t))) \<and>
         (dtype t \<noteq> float32 \<longrightarrow> cast_trensor_to_fp16 half t = Inr t) \<and>
         (dtype t \<noteq> float16 \<longrightarrow> cast_trensor_to_fp32 float t = Inr t) \<and>
         (dtype t = float16 \<and> keeps_leaf half \<and> keeps_leaf float \<longrightarrow>
            (\<exists>out. fp16_fp32_fp16 half float t = Inr out \<and> dtype out = float16)) \<and>
         (dtype t = float16 \<longrightarrow>
            (\<forall>out. fp16_fp32_fp16 half float t = Inr out \<longrightarrow> dtype out = float16))"
proof (intro conjI impI allI)
  assume a: "dtype t = float32 \<and> (is_leaf t \<longrightarrow> is_leaf (half t))"
  let ?out = "propagated t (half t)"
  have r: "cast_trensor_to_fp16 half t = Inr ?out"
    using a by (simp add: cast_fp16_match)
  have e: "?out = (if is_leaf t then (half t)\<lparr>requires_grad := requires_grad t\<rparr> else half t)"
    by (simp add: propagated_def)
  have d: "dtype ?out = float16"
    using assms(1) by (simp add: propagated_dtype casts_to_def)
  then have "dtype ?out \<noteq> dtype t"
    using a by simp
  then have n: "?out \<noteq> t"
    by (rule contrapos_nn) simp
  have g: "is_leaf t \<longrightarrow> requires_grad ?out = requires_grad t"
    by (simp add: propagated_requires_grad)
  from r e d n g show "\<exists>out. cast_trensor_to_fp16 half t = Inr out \<and>
      out = (if is_leaf t then (half t)\<lparr>requires_grad := requires_grad t\<rparr> else half t) \<and>
      dtype out = float16 \<and> out \<noteq> t \<and> (is_leaf t \<longrightarrow> requires_grad out = requires_grad t)"
    by (intro exI [of _ ?out] conjI)
next
  assume a: "dtype t = float16 \<and> (is_leaf t \<longrightarrow> is_leaf (float t))"
  let ?out = "propagated t (float t)"
  have r: "cast_trensor_to_fp32 float t = Inr ?out"
    using a by (simp add: cast_fp32_match)
  have e: "?out = (if is_leaf t then (float t)\<lparr>requires_grad := requires_grad t\<rparr> else float t)"
    by (simp add: propagated_def)
  have d: "dtype ?out = float32"
    using assms(2) by (simp add: propagated_dtype casts_to_def)
  then have "dtype ?out \<noteq> dtype t"
    using a by simp
  then have n: "?out \<noteq> t"
    by (rule contrapos_nn) simp
  have g: "is_leaf t \<longrightarrow> requires_grad ?out = requires_grad t"
    by (simp add: propagated_requires_grad)
  from r e d n g show "\<exists>out. cast_trensor_to_fp32 float t = Inr out \<and>
      out = (if is_leaf t then (float t)\<lparr>requires_grad := requires_grad t\<rparr> else float t) \<and>
      dtype out = float32 \<and> out \<noteq> t \<and> (is_leaf t \<longrightarrow> requires_grad out = requires_grad t)"
    by (intro exI [of _ ?out] conjI)
next
  assume "dtype t \<noteq> float32"
  then show "cast_trensor_to_fp16 half t = Inr t"
    by (rule cast_fp16_other)
next
  assume "dtype t \<noteq> float16"
  then show "cast_trensor_to_fp32 float t = Inr t"
    by (rule cast_fp32_other)
next
  assume a: "dtype t = float16 \<and> keeps_leaf half \<and> keeps_leaf float"
  let ?b = "propagated t (float t)"
  let ?out = "propagated ?b (half ?b)"
  have "fp16_fp32_fp16 half float t = Inr ?out"
    using assms a by (intro fp16_fp32_fp16_returns) simp_all
  moreover have "dtype ?out = float16"
    using assms(1) by (simp add: propagated_dtype casts_to_def)
  ultimately show "\<exists>out. fp16_fp32_fp16 half float t = Inr out \<and> dtype out = float16"
    by (intro exI [of _ ?out] conjI)
next
  fix out
  assume "dtype t = float16" and "fp16_fp32_fp16 half float t = Inr out"
  with assms show "dtype out = float16"
    by (rule fp16_fp32_fp16_returns_dtype)
qed

lemma no_grad_cast_casts: "casts_to d (no_grad_cast d)"
  by (simp add: casts_to_def no_grad_cast_def)

lemma no_grad_cast_keeps_leaf: "keeps_leaf (no_grad_cast d)"
  by (simp add: keeps_leaf_def no_grad_cast_def)

theorem cast_tensor_precision_when_leaf_witness:
  "cast_trensor_to_fp16 (no_grad_cast float16) \<lparr>dtype = float32, is_leaf = True, requires_grad = True\<rparr>
     = Inr \<lparr>dtype = float16, is_leaf = True, requires_grad = True\<rparr> \<and>
   cast_trensor_to_fp32 (no_grad_cast float32) \<lparr>dtype = float16, is_leaf = True, requires_grad = True\<rparr>
     = Inr \<lparr>dtype = float32, is_leaf = True, requires_grad = True\<rparr> \<and>
   cast_trensor_to_fp16 (no_grad_cast float16) \<lparr>dtype = int64, is_leaf = True, requires_grad = False\<rparr>
     = Inr \<lparr>dtype = int64, is_leaf = True, requires_grad = False\<rparr> \<and>
   (\<exists>out. fp16_fp32_fp16 (no_grad_cast float16) (no_grad_cast float32)
             \<lparr>dtype = float16, is_leaf = True, requires_grad = True\<rparr> = Inr out \<and>
          dtype out = float16)"
proof -
  note c = no_grad_cast_casts [of float16] no_grad_cast_casts [of float32]
  note k = no_grad_cast_keeps_leaf [of float16] no_grad_cast_keeps_leaf [of float32]
  let ?t32 = "\<lparr>dtype = float32, is_leaf = True, requires_grad = True\<rparr>"
  let ?t16 = "\<lparr>dtype = float16, is_leaf = True, requires_grad = True\<rparr>"
  let ?ti = "\<lparr>dtype = int64, is_leaf = True, requires_grad = False\<rparr>"
  have a: "cast_trensor_to_fp16 (no_grad_cast float16) ?t32
      = Inr \<lparr>dtype = float16, is_leaf = True, requires_grad = True\<rparr>"
    by (simp add: cast_trensor_to_fp16_def set_requires_grad_def no_grad_cast_def)
  have b: "cast_trensor_to_fp32 (no_grad_cast float32) ?t16
      = Inr \<lparr>dtype = float32, is_leaf = True, requires_grad = True\<rparr>"
    by (simp add: cast_trensor_to_fp32_def set_requires_grad_def no_grad_cast_def)
  from cast_tensor_precision_when_leaf [OF c, of ?ti]
  have "dtype ?ti \<noteq> float32 \<longrightarrow> cast_trensor_to_fp16 (no_grad_cast float16) ?ti = Inr ?ti"
    by (elim conjE)
  then have o: "cast_trensor_to_fp16 (no_grad_cast float16) ?ti = Inr ?ti"
    by simp
  from cast_tensor_precision_when_leaf [OF c, of ?t16]
  have "dtype ?t16 = float16 \<and> keeps_leaf (no_grad_cast float16) \<and> keeps_leaf (no_grad_cast float32) \<longrightarrow>
      (\<exists>out. fp16_fp32_fp16 (no_grad_cast float16) (no_grad_cast float32) ?t16 = Inr out \<and>
         dtype out = float16)"
    by (elim conjE)
  then have r: "\<exists>out. fp16_fp32_fp16 (no_grad_cast float16) (no_grad_cast float32) ?t16 = Inr out \<and>
      dtype out = float16"
    using k by simp
  from a b o r show ?thesis
    by (intro conjI)
qed

text \<open>
  With gradient recording on, \<^verbatim>\<open>half()\<close> of a \<^verbatim>\<open>float32\<close> leaf that requires
  gradients is not a leaf, and the assignment to its \<^verbatim>\<open>requires_grad\<close> raises: the
  cast returns no tensor.
\<close>

theorem cast_tensor_precision_counterexample:
  "casts_to float16 (grad_mode_cast float16) \<and>
   cast_trensor_to_fp16 (grad_mode_cast float16) \<lparr>dtype = float32, is_leaf = True, requires_grad = True\<rparr>
     = Inl RuntimeError"
  by (simp add: casts_to_def grad_mode_cast_def cast_trensor_to_fp16_def set_requires_grad_def)

section \<open>Properties of the structural traversal\<close>

text \<open>
  C10. For every nested structure of tensors, lists, tuples, dictionaries and other
  leaves, \<^verbatim>\<open>apply_to_tensors(x, fn)\<close> with the identity function returns a structure
  equal to \<open>x\<close>; and with a function \<open>g\<close> from tensors to tensors it rebuilds the
  same shape with \<open>g\<close> applied to every tensor leaf and every other leaf unchanged.
\<close>

theorem apply_to_tensors_identity:
  "apply_to_tensors x Tensor = x \<and>
   apply_to_tensors x (\<lambda>t. Tensor (g t)) = map_pyval g id id x"
proof (induction x)
  case (PyDict kvs)
  have a: "map (\<lambda>(key, val). (key, apply_to_tensors val Tensor)) kvs = kvs"
    using PyDict by (intro map_idI) (auto simp add: snds.simps)
  have b: "map (\<lambda>(key, val). (key, apply_to_tensors val (\<lambda>t. Tensor (g t)))) kvs
      = map (map_prod id (map_pyval g id id)) kvs"
    using PyDict by (intro map_cong refl) (auto simp add: snds.simps id_def)
  from a b show ?case by (simp add: id_def)
qed (simp_all add: map_idI cong: map_cong)

text \<open>The structure \<^verbatim>\<open>{"a": [T1, (T2,)]}\<close>, with one more leaf that is no tensor.\<close>

lemma apply_to_tensors_example:
  "apply_to_tensors (PyDict [(''a'', PyList [Tensor (1::nat), PyTuple [Tensor 2], Other True])]) Tensor
     = PyDict [(''a'', PyList [Tensor 1, PyTuple [Tensor 2], Other True])]"
  by simp

section \<open>Properties of the prefix renaming\<close>

lemma prefix_split: "prefix p k \<Longrightarrow> p @ drop (length p) k = k"
  by (auto simp add: prefix_def)

lemma old_key_of_new_key_of:
  "prefix old_prefix k \<Longrightarrow> old_key_of old_prefix new_prefix (new_key_of old_prefix new_prefix k) = k"
  by (simp add: old_key_of_def new_key_of_def prefix_split)

lemma new_key_of_old_key_of:
  "prefix new_prefix x \<Longrightarrow> new_key_of old_prefix new_prefix (old_key_of old_prefix new_prefix x) = x"
  by (simp add: old_key_of_def new_key_of_def prefix_split)

lemma prefix_new_key_of: "prefix new_prefix (new_key_of old_prefix new_prefix k)"
  by (simp add: new_key_of_def)

lemma prefix_old_key_of: "prefix old_prefix (old_key_of old_prefix new_prefix x)"
  by (simp add: old_key_of_def)

lemma new_key_of_inj:
  "prefix old_prefix k \<Longrightarrow> prefix old_prefix k' \<Longrightarrow>
     new_key_of old_prefix new_prefix k = new_key_of old_prefix new_prefix k' \<Longrightarrow> k = k'"
  by (metis old_key_of_new_key_of)

lemma renamed_step_skip:
  assumes "\<not> prefix old_prefix k"
  shows "renamed m (insert k ks) old_prefix new_prefix = renamed m ks old_prefix new_prefix"
proof (rule ext)
  fix x
  have "old_key_of old_prefix new_prefix x \<noteq> k"
    using assms prefix_old_key_of [of old_prefix new_prefix x] by auto
  moreover have "\<not> (prefix old_prefix x \<and> x = k)"
    using assms by auto
  ultimately show "renamed m (insert k ks) old_prefix new_prefix x = renamed m ks old_prefix new_prefix x"
    by (auto simp add: renamed_def)
qed

lemma renamed_target:
  "prefix new_prefix x \<Longrightarrow> old_key_of old_prefix new_prefix x \<in> ks \<Longrightarrow>
     renamed m ks old_prefix new_prefix x = m (old_key_of old_prefix new_prefix x)"
  by (simp add: renamed_def)

lemma renamed_removed:
  "\<not> (prefix new_prefix x \<and> old_key_of old_prefix new_prefix x \<in> ks) \<Longrightarrow>
     prefix old_prefix x \<Longrightarrow> x \<in> ks \<Longrightarrow> renamed m ks old_prefix new_prefix x = None"
  by (auto simp add: renamed_def)

lemma renamed_other:
  "\<not> (prefix new_prefix x \<and> old_key_of old_prefix new_prefix x \<in> ks) \<Longrightarrow>
     \<not> (prefix old_prefix x \<and> x \<in> ks) \<Longrightarrow> renamed m ks old_prefix new_prefix x = m x"
  by (auto simp add: renamed_def)

lemma renamed_step_rename:
  assumes p: "prefix old_prefix k" and k: "k \<notin> ks" and sub: "ks \<subseteq> dom m" and mk: "m k = Some v"
    and fresh: "new_key_of old_prefix new_prefix k \<notin> dom m"
  shows "renamed ((m(new_key_of old_prefix new_prefix k \<mapsto> v))(k := None)) ks old_prefix new_prefix
       = renamed m (insert k ks) old_prefix new_prefix"
proof (rule ext)
  fix x
  let ?rn = "new_key_of old_prefix new_prefix k"
  let ?o = "old_key_of old_prefix new_prefix x"
  let ?m1 = "(m(?rn \<mapsto> v))(k := None)"
  have rk: "?rn \<noteq> k"
    using fresh mk by auto
  have rks: "?rn \<notin> ks"
    using fresh sub by auto
  show "renamed ?m1 ks old_prefix new_prefix x = renamed m (insert k ks) old_prefix new_prefix x"
  proof (cases "prefix new_prefix x \<and> ?o \<in> ks")
    case True
    then have ne: "?o \<noteq> k" "?o \<noteq> ?rn"
      using k rks by auto
    have "renamed ?m1 ks old_prefix new_prefix x = ?m1 ?o"
      using True by (simp only: renamed_target)
    also have "\<dots> = m ?o"
      using ne by simp
    also have "\<dots> = renamed m (insert k ks) old_prefix new_prefix x"
      using True by (simp add: renamed_target)
    finally show ?thesis .
  next
    case False
    show ?thesis
    proof (cases "prefix new_prefix x \<and> ?o = k")
      case True
      then have x: "x = ?rn"
        using new_key_of_old_key_of [of new_prefix x old_prefix] by simp
      have x1: "\<not> (prefix old_prefix x \<and> x \<in> ks)"
        using x rks by simp
      have "renamed ?m1 ks old_prefix new_prefix x = ?m1 x"
        using False x1 by (rule renamed_other)
      also have "\<dots> = m k"
        unfolding x using rk mk by simp
      also have "\<dots> = m ?o"
        using True by simp
      also have "\<dots> = renamed m (insert k ks) old_prefix new_prefix x"
        using True by (simp add: renamed_target)
      finally show ?thesis .
    next
      case F2: False
      have xr: "x \<noteq> ?rn"
      proof
        assume "x = ?rn"
        then have "prefix new_prefix x \<and> ?o = k"
          using p by (simp add: prefix_new_key_of old_key_of_new_key_of)
        with F2 show False by simp
      qed
      have c0: "\<not> (prefix new_prefix x \<and> ?o \<in> insert k ks)"
        using False F2 by auto
      show ?thesis
      proof (cases "x = k")
        case True
        have x1: "\<not> (prefix old_prefix x \<and> x \<in> ks)"
          using True k by simp
        have "renamed ?m1 ks old_prefix new_prefix x = ?m1 x"
          using False x1 by (rule renamed_other)
        also have "\<dots> = None"
          using True by simp
        also have "\<dots> = renamed m (insert k ks) old_prefix new_prefix x"
          using c0 True p by (simp add: renamed_removed)
        finally show ?thesis .
      next
        case F3: False
        show ?thesis
        proof (cases "prefix old_prefix x \<and> x \<in> ks")
          case True
          then have "renamed ?m1 ks old_prefix new_prefix x = None"
            using False by (simp add: renamed_removed)
          moreover have "renamed m (insert k ks) old_prefix new_prefix x = None"
            using c0 True by (simp add: renamed_removed)
          ultimately show ?thesis by simp
        next
          case F4: False
          then have c1: "\<not> (prefix old_prefix x \<and> x \<in> insert k ks)"
            using F3 by auto
          have "renamed ?m1 ks old_prefix new_prefix x = ?m1 x"
            using False F4 by (rule renamed_other)
          also have "\<dots> = m x"
            using F3 xr by simp
          also have "\<dots> = renamed m (insert k ks) old_prefix new_prefix x"
            using c0 c1 by (rule renamed_other [symmetric])
          finally show ?thesis .
        qed
      qed
    qed
  qed
qed

lemma rename_keys_renamed:
  assumes "distinct ks" and "set ks \<subseteq> dom (map_of d)"
    and "\<forall>k \<in> set ks. prefix old_prefix k \<longrightarrow> new_key_of old_prefix new_prefix k \<notin> dom (map_of d)"
  shows "\<exists>d'. rename_keys ks old_prefix new_prefix d = Returned d' \<and>
           map_of d' = renamed (map_of d) (set ks) old_prefix new_prefix"
  using assms
proof (induction ks arbitrary: d)
  case Nil
  have "renamed (map_of d) {} old_prefix new_prefix = map_of d"
    by (rule ext) (simp add: renamed_def)
  then show ?case by simp
next
  case (Cons k ks)
  let ?m = "map_of d"
  let ?rn = "new_key_of old_prefix new_prefix k"
  have dist: "distinct ks" and k: "k \<notin> set ks"
    using Cons.prems(1) by simp_all
  have sub: "set ks \<subseteq> dom ?m" and kd: "k \<in> dom ?m"
    using Cons.prems(2) by simp_all
  have fresh: "\<forall>k' \<in> set ks. prefix old_prefix k' \<longrightarrow> new_key_of old_prefix new_prefix k' \<notin> dom ?m"
    using Cons.prems(3) by simp
  show ?case
  proof (cases "prefix old_prefix k")
    case False
    from Cons.IH [OF dist sub fresh] obtain d' where
      d': "rename_keys ks old_prefix new_prefix d = Returned d'"
        "map_of d' = renamed ?m (set ks) old_prefix new_prefix"
      by auto
    have "renamed ?m (set (k # ks)) old_prefix new_prefix = renamed ?m (set ks) old_prefix new_prefix"
      using False by (simp add: renamed_step_skip)
    with d' False show ?thesis
      by simp
  next
    case True
    obtain v where v: "?m k = Some v"
      using kd by auto
    have fk: "?rn \<notin> dom ?m"
      using Cons.prems(3) True by simp
    let ?d1 = "AList.update ?rn v d"
    let ?d2 = "AList.delete k ?d1"
    let ?m1 = "(?m(?rn \<mapsto> v))(k := None)"
    have m1: "map_of ?d2 = ?m1"
      by (simp add: delete_conv' update_conv')
    have rk: "?rn \<noteq> k"
      using fk kd by auto
    have present: "map_of ?d1 k = Some v"
      using v rk by (simp add: update_conv')
    have step: "rename_keys (k # ks) old_prefix new_prefix d = rename_keys ks old_prefix new_prefix ?d2"
      using True v present by (simp add: Let_def)
    have sub1: "set ks \<subseteq> dom (map_of ?d2)"
      unfolding m1 using sub k by auto
    have fresh1: "\<forall>k' \<in> set ks. prefix old_prefix k' \<longrightarrow>
        new_key_of old_prefix new_prefix k' \<notin> dom (map_of ?d2)"
    proof (intro ballI impI)
      fix k' assume k': "k' \<in> set ks" "prefix old_prefix k'"
      have "new_key_of old_prefix new_prefix k' \<notin> dom ?m"
        using fresh k' by simp
      moreover have "new_key_of old_prefix new_prefix k' \<noteq> ?rn"
      proof
        assume "new_key_of old_prefix new_prefix k' = ?rn"
        with k'(2) True have "k' = k"
          by (rule new_key_of_inj)
        with k'(1) k show False by simp
      qed
      ultimately show "new_key_of old_prefix new_prefix k' \<notin> dom (map_of ?d2)"
        unfolding m1 by auto
    qed
    from Cons.IH [OF dist sub1 fresh1] obtain d' where
      d': "rename_keys ks old_prefix new_prefix ?d2 = Returned d'"
        "map_of d' = renamed (map_of ?d2) (set ks) old_prefix new_prefix"
      by auto
    have "renamed ?m1 (set ks) old_prefix new_prefix = renamed ?m (insert k (set ks)) old_prefix new_prefix"
      using True k sub v fk by (rule renamed_step_rename)
    with d' step m1 show ?thesis
      by simp
  qed
qed

lemma rename_keys_no_value_error:
  "rename_keys ks old_prefix new_prefix d \<noteq> Raised ValueError d'"
  by (induction ks arbitrary: d) (auto simp add: Let_def split: option.splits)

lemma no_collision_not_target:
  assumes "\<forall>key \<in> ks. prefix old_prefix key \<longrightarrow> new_key_of old_prefix new_prefix key \<notin> ks"
    and "x \<in> ks"
  shows "\<not> (prefix new_prefix x \<and> old_key_of old_prefix new_prefix x \<in> ks)"
proof
  assume a: "prefix new_prefix x \<and> old_key_of old_prefix new_prefix x \<in> ks"
  let ?o = "old_key_of old_prefix new_prefix x"
  have "prefix old_prefix ?o"
    by (rule prefix_old_key_of)
  with assms(1) a have "new_key_of old_prefix new_prefix ?o \<notin> ks"
    by blast
  moreover have "new_key_of old_prefix new_prefix ?o = x"
    using a by (simp add: new_key_of_old_key_of)
  ultimately show False
    using assms(2) by simp
qed

lemma replace_state_dict_prefix_map:
  assumes "distinct (dict_keys state_dict)" and "old_prefix \<noteq> new_prefix"
    and "\<forall>key \<in> set (dict_keys state_dict). prefix old_prefix key \<longrightarrow>
           new_key_of old_prefix new_prefix key \<notin> set (dict_keys state_dict)"
  shows "\<exists>d'. replace_state_dict_prefix state_dict old_prefix new_prefix = Returned d' \<and>
           map_of d' = renamed (map_of state_dict) (dom (map_of state_dict)) old_prefix new_prefix"
proof -
  have keys: "set (dict_keys state_dict) = dom (map_of state_dict)"
    by (simp add: dict_keys_def dom_map_of_conv_image_fst)
  have "\<exists>d'. rename_keys (dict_keys state_dict) old_prefix new_prefix state_dict = Returned d' \<and>
      map_of d' = renamed (map_of state_dict) (set (dict_keys state_dict)) old_prefix new_prefix"
    using assms(1,3) by (intro rename_keys_renamed) (simp_all add: keys)
  then show ?thesis
    using assms(2) by (simp add: replace_state_dict_prefix_def keys)
qed

text \<open>
  C6, as the code has it. When the old and the new prefix differ and no renamed key is
  already a key of the mapping, \<^verbatim>\<open>replace_state_dict_prefix\<close> returns and leaves a
  mapping in which every key that started with the old prefix is gone and its value is
  bound to the key with the old prefix replaced by the new one (the rest of the key
  kept), every other key has its value, nothing else is bound, and the same mapping
  results from any order of the items.
\<close>

theorem replace_state_dict_prefix_renames:
  assumes "distinct (dict_keys state_dict)" and "old_prefix \<noteq> new_prefix"
    and "\<forall>key \<in> set (dict_keys state_dict). prefix old_prefix key \<longrightarrow>
           new_key_of old_prefix new_prefix key \<notin> set (dict_keys state_dict)"
  shows "\<exists>d'. replace_state_dict_prefix state_dict old_prefix new_prefix = Returned d' \<and>
           (\<forall>key v. map_of state_dict key = Some v \<and> prefix old_prefix key \<longrightarrow>
              map_of d' (new_key_of old_prefix new_prefix key) = Some v \<and> map_of d' key = None) \<and>
           (\<forall>key v. map_of state_dict key = Some v \<and> \<not> prefix old_prefix key \<longrightarrow>
              map_of d' key = Some v) \<and>
           (\<forall>x v. map_of d' x = Some v \<longrightarrow>
              (\<exists>key. map_of state_dict key = Some v \<and>
                 x = (if prefix old_prefix key then new_key_of old_prefix new_prefix key else key))) \<and>
           (\<forall>other. distinct (dict_keys other) \<and> set other = set state_dict \<longrightarrow>
              (\<exists>d''. replace_state_dict_prefix other old_prefix new_prefix = Returned d'' \<and>
                 map_of d'' = map_of d'))"
proof -
  let ?m = "map_of state_dict"
  let ?ks = "dom ?m"
  have keys: "set (dict_keys state_dict) = ?ks"
    by (simp add: dict_keys_def dom_map_of_conv_image_fst)
  have nc: "\<forall>key \<in> ?ks. prefix old_prefix key \<longrightarrow> new_key_of old_prefix new_prefix key \<notin> ?ks"
    using assms(3) unfolding keys .
  obtain d' where d': "replace_state_dict_prefix state_dict old_prefix new_prefix = Returned d'"
      "map_of d' = renamed ?m ?ks old_prefix new_prefix"
    using replace_state_dict_prefix_map [OF assms] by auto
  have renamed_keys: "map_of d' (new_key_of old_prefix new_prefix key) = Some v \<and> map_of d' key = None"
    if "?m key = Some v" and p: "prefix old_prefix key" for key v
  proof
    have kd: "key \<in> ?ks" using that(1) by auto
    have "old_key_of old_prefix new_prefix (new_key_of old_prefix new_prefix key) = key"
      using p by (rule old_key_of_new_key_of)
    then have "renamed ?m ?ks old_prefix new_prefix (new_key_of old_prefix new_prefix key) = ?m key"
      using kd by (simp add: renamed_target prefix_new_key_of)
    then show "map_of d' (new_key_of old_prefix new_prefix key) = Some v"
      using that(1) d'(2) by simp
    have "renamed ?m ?ks old_prefix new_prefix key = None"
      using no_collision_not_target [OF nc kd] p kd by (rule renamed_removed)
    then show "map_of d' key = None"
      using d'(2) by simp
  qed
  have other_keys: "map_of d' key = Some v" if "?m key = Some v" and p: "\<not> prefix old_prefix key" for key v
  proof -
    have kd: "key \<in> ?ks" using that(1) by auto
    have "renamed ?m ?ks old_prefix new_prefix key = ?m key"
      using no_collision_not_target [OF nc kd] p by (intro renamed_other) simp_all
    then show ?thesis
      using that(1) d'(2) by simp
  qed
  have origin: "\<exists>key. ?m key = Some v \<and>
      x = (if prefix old_prefix key then new_key_of old_prefix new_prefix key else key)"
    if "map_of d' x = Some v" for x v
  proof -
    have r: "renamed ?m ?ks old_prefix new_prefix x = Some v"
      using that d'(2) by simp
    show ?thesis
    proof (cases "prefix new_prefix x \<and> old_key_of old_prefix new_prefix x \<in> ?ks")
      case True
      let ?o = "old_key_of old_prefix new_prefix x"
      have "?m ?o = Some v"
        using r True by (simp add: renamed_target)
      moreover have "x = new_key_of old_prefix new_prefix ?o"
        using True by (simp add: new_key_of_old_key_of)
      moreover have "prefix old_prefix ?o"
        by (rule prefix_old_key_of)
      ultimately show ?thesis
        by (intro exI [of _ ?o]) simp
    next
      case False
      show ?thesis
      proof (cases "prefix old_prefix x \<and> x \<in> ?ks")
        case True
        then have "renamed ?m ?ks old_prefix new_prefix x = None"
          using False by (simp add: renamed_removed)
        with r show ?thesis by simp
      next
        case F2: False
        have mx: "?m x = Some v"
          using r renamed_other [OF False F2, of ?m] by simp
        then have "x \<in> ?ks" by auto
        with F2 have "\<not> prefix old_prefix x" by simp
        with mx show ?thesis
          by (intro exI [of _ x]) simp
      qed
    qed
  qed
  have order: "\<exists>d''. replace_state_dict_prefix other old_prefix new_prefix = Returned d'' \<and>
      map_of d'' = map_of d'" if o: "distinct (dict_keys other)" "set other = set state_dict" for other
  proof -
    have same: "map_of other = ?m"
      using o assms(1) by (simp add: dict_keys_def map_of_inject_set)
    have okeys: "set (dict_keys other) = set (dict_keys state_dict)"
      using o(2) by (simp add: dict_keys_def)
    have "\<exists>d''. replace_state_dict_prefix other old_prefix new_prefix = Returned d'' \<and>
        map_of d'' = renamed (map_of other) (dom (map_of other)) old_prefix new_prefix"
      using o(1) assms(2) assms(3) unfolding okeys [symmetric]
      by (rule replace_state_dict_prefix_map)
    then show ?thesis
      using d'(2) same by simp
  qed
  show ?thesis
    using d'(1) renamed_keys other_keys origin order by blast
qed

theorem replace_state_dict_prefix_renames_witness:
  "replace_state_dict_prefix [(''layer.w'', 1 :: nat), (''head.b'', 2)] ''layer.'' ''module.layer.''
     = Returned [(''head.b'', 2), (''module.layer.w'', 1)] \<and>
   (\<exists>d'. replace_state_dict_prefix [(''layer.w'', 1 :: nat), (''head.b'', 2)] ''layer.'' ''module.layer.''
             = Returned d' \<and>
          map_of d' ''module.layer.w'' = Some 1 \<and> map_of d' ''layer.w'' = None \<and>
          map_of d' ''head.b'' = Some 2 \<and>
          (\<exists>d''. replace_state_dict_prefix [(''head.b'', 2), (''layer.w'', 1)] ''layer.'' ''module.layer.''
                    = Returned d'' \<and> map_of d'' = map_of d'))"
proof -
  let ?d = "[(''layer.w'', 1 :: nat), (''head.b'', 2)]"
  have h1: "distinct (dict_keys ?d)"
    by (simp add: dict_keys_def)
  have h2: "''layer.'' \<noteq> ''module.layer.''"
    by simp
  have h3: "\<forall>key \<in> set (dict_keys ?d). prefix ''layer.'' key \<longrightarrow>
      new_key_of ''layer.'' ''module.layer.'' key \<notin> set (dict_keys ?d)"
    by (simp add: dict_keys_def new_key_of_def)
  from replace_state_dict_prefix_renames [OF h1 h2 h3] obtain d' where
    r: "replace_state_dict_prefix ?d ''layer.'' ''module.layer.'' = Returned d'"
    and a: "\<forall>key v. map_of ?d key = Some v \<and> prefix ''layer.'' key \<longrightarrow>
        map_of d' (new_key_of ''layer.'' ''module.layer.'' key) = Some v \<and> map_of d' key = None"
    and b: "\<forall>key v. map_of ?d key = Some v \<and> \<not> prefix ''layer.'' key \<longrightarrow> map_of d' key = Some v"
    and c: "\<forall>other. distinct (dict_keys other) \<and> set other = set ?d \<longrightarrow>
        (\<exists>d''. replace_state_dict_prefix other ''layer.'' ''module.layer.'' = Returned d'' \<and>
           map_of d'' = map_of d')"
    by blast
  have "map_of ?d ''layer.w'' = Some 1 \<and> prefix ''layer.'' ''layer.w''"
    by simp
  with a have "map_of d' (new_key_of ''layer.'' ''module.layer.'' ''layer.w'') = Some 1
      \<and> map_of d' ''layer.w'' = None"
    by blast
  then have a': "map_of d' ''module.layer.w'' = Some 1" "map_of d' ''layer.w'' = None"
    by (simp_all add: new_key_of_def)
  have "map_of ?d ''head.b'' = Some 2 \<and> \<not> prefix ''layer.'' ''head.b''"
    by simp
  with b have b': "map_of d' ''head.b'' = Some 2"
    by blast
  have "distinct (dict_keys [(''head.b'', 2 :: nat), (''layer.w'', 1)])
      \<and> set [(''head.b'', 2 :: nat), (''layer.w'', 1)] = set ?d"
    by (auto simp add: dict_keys_def)
  with c have c': "\<exists>d''. replace_state_dict_prefix [(''head.b'', 2), (''layer.w'', 1)]
      ''layer.'' ''module.layer.'' = Returned d'' \<and> map_of d'' = map_of d'"
    by blast
  have v: "replace_state_dict_prefix ?d ''layer.'' ''module.layer.''
      = Returned [(''head.b'', 2), (''module.layer.w'', 1)]"
    by (simp add: replace_state_dict_prefix_def dict_keys_def new_key_of_def)
  from r a' b' c' have "\<exists>d'. replace_state_dict_prefix ?d ''layer.'' ''module.layer.'' = Returned d' \<and>
      map_of d' ''module.layer.w'' = Some 1 \<and> map_of d' ''layer.w'' = None \<and>
      map_of d' ''head.b'' = Some 2 \<and>
      (\<exists>d''. replace_state_dict_prefix [(''head.b'', 2), (''layer.w'', 1)] ''layer.'' ''module.layer.''
                = Returned d'' \<and> map_of d'' = map_of d')"
    by blast
  with v show ?thesis
    by (rule conjI)
qed

text \<open>
  Without that condition: renaming \<^verbatim>\<open>a.x\<close> to \<^verbatim>\<open>b.x\<close> overwrites the value of the
  key \<^verbatim>\<open>b.x\<close>, which does not start with the old prefix; and with the prefixes
  \<^verbatim>\<open>a\<close> and \<^verbatim>\<open>ab\<close> the two orders of the items \<^verbatim>\<open>a\<close> and \<^verbatim>\<open>ab\<close> end in
  different mappings.
\<close>

theorem replace_state_dict_prefix_counterexample:
  "replace_state_dict_prefix [(''a.x'', 1 :: nat), (''b.x'', 2)] ''a.'' ''b.''
     = Returned [(''b.x'', 1)] \<and>
   replace_state_dict_prefix [(''a'', 1 :: nat), (''ab'', 2)] ''a'' ''ab''
     = Returned [(''abb'', 1)] \<and>
   replace_state_dict_prefix [(''ab'', 2), (''a'', 1 :: nat)] ''a'' ''ab''
     = Returned [(''abb'', 2), (''ab'', 1)]"
  by (simp add: replace_state_dict_prefix_def dict_keys_def new_key_of_def)

text \<open>
  C7. \<^verbatim>\<open>replace_state_dict_prefix\<close> raises a value error exactly when the old and
  the new prefix are equal, and then the mapping is as it was before the call.
\<close>

theorem replace_state_dict_prefix_value_error:
  "((\<exists>d'. replace_state_dict_prefix state_dict old_prefix new_prefix = Raised ValueError d')
      = (old_prefix = new_prefix)) \<and>
   (old_prefix = new_prefix \<longrightarrow>
      replace_state_dict_prefix state_dict old_prefix new_prefix = Raised ValueError state_dict)"
  by (simp add: replace_state_dict_prefix_def rename_keys_no_value_error)

theorem replace_state_dict_prefix_value_error_witness:
  "replace_state_dict_prefix [(''x.w'', 1 :: nat)] ''x'' ''x'' = Raised ValueError [(''x.w'', 1)] \<and>
   \<not> (\<exists>d'. replace_state_dict_prefix [(''x.w'', 1 :: nat)] ''x'' ''y'' = Raised ValueError d') \<and>
   replace_state_dict_prefix [(''x.w'', 1 :: nat)] ''x'' ''y'' = Returned [(''y.w'', 1)]"
proof -
  have "replace_state_dict_prefix [(''x.w'', 1 :: nat)] ''x'' ''x'' = Raised ValueError [(''x.w'', 1)]"
    using replace_state_dict_prefix_value_error [of "[(''x.w'', 1 :: nat)]" "''x''" "''x''"]
    by simp
  moreover have "\<not> (\<exists>d'. replace_state_dict_prefix [(''x.w'', 1 :: nat)] ''x'' ''y'' = Raised ValueError d')"
    using replace_state_dict_prefix_value_error [of "[(''x.w'', 1 :: nat)]" "''x''" "''y''"]
    by simp
  moreover have "replace_state_dict_prefix [(''x.w'', 1 :: nat)] ''x'' ''y'' = Returned [(''y.w'', 1)]"
    by (simp add: replace_state_dict_prefix_def dict_keys_def new_key_of_def)
  ultimately show ?thesis
    by (intro conjI)
qed

end
